theory Spec2Isabelle
  imports Main "HOL-Library.Sublist"
begin

section \<open>Strings and paths\<close>

text \<open>
  Go strings are byte sequences; they are modelled as \<open>string\<close> (a list of 8-bit
  characters). The program is modelled as it runs on a Unix system: the path separator is
  \<open>/\<close> and the backslash is the escape character of glob patterns.
\<close>

definition Separator :: char where
  "Separator = CHR ''/''"

text \<open>\<open>strings.Contains(s, substr)\<close>: \<open>substr\<close> occurs in \<open>s\<close> as a contiguous run.\<close>

fun Contains :: "string \<Rightarrow> string \<Rightarrow> bool" where
  "Contains [] substr = (substr = [])"
| "Contains (c # s) substr = (prefix substr (c # s) \<or> Contains s substr)"

text \<open>\<open>strings.HasSuffix(s, suffix)\<close>.\<close>

definition HasSuffix :: "string \<Rightarrow> string \<Rightarrow> bool" where
  "HasSuffix s suff = suffix suff s"

text \<open>
  \<open>filepath.Base(path)\<close>: the last element of the path. Trailing separators are removed
  first; the empty path gives \<open>.\<close>, a path of separators only gives the separator.
\<close>

definition stripTrailingSeps :: "string \<Rightarrow> string" where
  "stripTrailingSeps path = rev (dropWhile (\<lambda>c. c = Separator) (rev path))"

definition lastElement :: "string \<Rightarrow> string" where
  "lastElement path = rev (takeWhile (\<lambda>c. c \<noteq> Separator) (rev path))"

definition Base :: "string \<Rightarrow> string" where
  "Base path =
     (if path = [] then ''.''
      else let p = lastElement (stripTrailingSeps path)
           in if p = [] then [Separator] else p)"

section \<open>Glob matching (\<open>filepath.Match\<close>)\<close>

text \<open>
  \<open>isIgnored\<close> and \<open>isIncluded\<close> call \<open>filepath.Match(pattern, name)\<close> of the Go
  standard library, package \<open>path/filepath\<close>. It is modelled here after the library's
  implementation (Go 1.16 and later, Unix): the pattern is cut into chunks at the stars
  outside bracket classes (\<open>scanChunk\<close>), each chunk is matched against the name
  (\<open>matchChunk\<close>), and the only error is \<open>ErrBadPattern\<close>, written \<open>None\<close>.
\<close>

definition RuneError :: nat where
  "RuneError = 65533"

definition contByte :: "nat \<Rightarrow> nat \<Rightarrow> nat \<Rightarrow> bool" where
  "contByte lo hi b = (lo \<le> b \<and> b \<le> hi)"

text \<open>
  \<open>utf8.DecodeRuneInString\<close>: the first code point of a string and its width in bytes;
  an invalid or truncated encoding gives \<open>(RuneError, 1)\<close>, the empty string
  \<open>(RuneError, 0)\<close>. The second byte of a sequence has the accepted range that the
  library's table gives for the leading byte.
\<close>

definition acceptRange :: "nat \<Rightarrow> nat \<times> nat" where
  "acceptRange b0 =
     (if b0 = 224 then (160, 191)
      else if b0 = 237 then (128, 159)
      else if b0 = 240 then (144, 191)
      else if b0 = 244 then (128, 143)
      else (128, 191))"

definition seqLen :: "nat \<Rightarrow> nat" where
  "seqLen b0 =
     (if b0 < 128 then 1
      else if b0 < 194 then 0
      else if b0 < 224 then 2
      else if b0 < 240 then 3
      else if b0 < 245 then 4
      else 0)"

definition byteAt :: "string \<Rightarrow> nat \<Rightarrow> nat" where
  "byteAt s i = of_char (s ! i)"

definition DecodeRuneInString :: "string \<Rightarrow> nat \<times> nat" where
  "DecodeRuneInString s =
     (if s = [] then (RuneError, 0)
      else let s0 = byteAt s 0; sz = seqLen s0 in
        if sz = 1 then (s0, 1)
        else if sz = 0 then (RuneError, 1)
        else if length s < sz then (RuneError, 1)
        else let s1 = byteAt s 1 in
          if \<not> contByte (fst (acceptRange s0)) (snd (acceptRange s0)) s1 then (RuneError, 1)
          else if sz = 2 then ((s0 mod 32) * 64 + s1 mod 64, 2)
          else let s2 = byteAt s 2 in
            if \<not> contByte 128 191 s2 then (RuneError, 1)
            else if sz = 3 then ((s0 mod 16) * 4096 + (s1 mod 64) * 64 + s2 mod 64, 3)
            else let s3 = byteAt s 3 in
              if \<not> contByte 128 191 s3 then (RuneError, 1)
              else ((s0 mod 8) * 262144 + (s1 mod 64) * 4096 + (s2 mod 64) * 64
                      + s3 mod 64, 4))"

text \<open>
  \<open>scanChunk\<close>: leading stars are dropped (and remembered), then the chunk runs up to the
  next star that is not inside a bracket class; an escaped character is stepped over.
\<close>

fun scanLen :: "string \<Rightarrow> bool \<Rightarrow> nat" where
  "scanLen [] inrange = 0"
| "scanLen (c # cs) inrange =
     (if c = CHR 0x5C then (case cs of [] \<Rightarrow> 1 | d # ds \<Rightarrow> 2 + scanLen ds inrange)
      else if c = CHR ''['' then 1 + scanLen cs True
      else if c = CHR '']'' then 1 + scanLen cs False
      else if c = CHR ''*'' then (if \<not> inrange then 0 else 1 + scanLen cs inrange)
      else 1 + scanLen cs inrange)"

definition scanChunk :: "string \<Rightarrow> bool \<times> string \<times> string" where
  "scanChunk pattern =
     (let star = (pattern \<noteq> [] \<and> hd pattern = CHR ''*'');
          p = dropWhile (\<lambda>c. c = CHR ''*'') pattern;
          i = scanLen p False
      in (star, take i p, drop i p))"

text \<open>
  \<open>getEsc\<close>: one, possibly escaped, character of a bracket class, and the rest of the
  chunk; a class that ends here is malformed.
\<close>

definition getEsc :: "string \<Rightarrow> (nat \<times> string) option" where
  "getEsc chunk =
     (if chunk = [] \<or> hd chunk = CHR ''-'' \<or> hd chunk = CHR '']'' then None
      else let chunk1 = (if hd chunk = CHR 0x5C then tl chunk else chunk) in
        if chunk1 = [] then None
        else let r = fst (DecodeRuneInString chunk1);
                 n = snd (DecodeRuneInString chunk1);
                 nchunk = drop n chunk1
             in if (r = RuneError \<and> n = 1) \<or> nchunk = [] then None
                else Some (r, nchunk))"

lemma DecodeRuneInString_pos: "s \<noteq> [] \<Longrightarrow> 0 < snd (DecodeRuneInString s)"
  by (simp add: DecodeRuneInString_def Let_def)

lemma getEsc_shorter: "getEsc chunk = Some (r, rest) \<Longrightarrow> length rest < length chunk"
  unfolding getEsc_def Let_def
  using DecodeRuneInString_pos [of chunk] DecodeRuneInString_pos [of "tl chunk"]
  by (auto split: if_splits)

text \<open>
  The ranges of a bracket class, up to the closing bracket: whether the code point \<open>r\<close>
  lies in one of them, and the chunk after the class.
\<close>

function parseRanges :: "nat \<Rightarrow> string \<Rightarrow> bool \<Rightarrow> nat \<Rightarrow> (string \<times> bool) option" where
  "parseRanges r chunk match nrange =
     (if chunk \<noteq> [] \<and> hd chunk = CHR '']'' \<and> 0 < nrange then Some (tl chunk, match)
      else case getEsc chunk of
        None \<Rightarrow> None
      | Some (lo, chunk1) \<Rightarrow>
          if hd chunk1 = CHR ''-'' then
            (case getEsc (tl chunk1) of
               None \<Rightarrow> None
             | Some (hi, chunk2) \<Rightarrow>
                 parseRanges r chunk2 (match \<or> (lo \<le> r \<and> r \<le> hi)) (nrange + 1))
          else parseRanges r chunk1 (match \<or> lo = r) (nrange + 1))"
  by pat_completeness auto
termination
proof (relation "measure (\<lambda>(r, chunk, match, nrange). length chunk)", goal_cases)
  case 1
  show ?case by simp
next
  case (2 r chunk match nrange x lo chunk1 y hi chunk2)
  then have "length chunk1 < length chunk" and "length chunk2 < length (tl chunk1)"
    by (auto dest: getEsc_shorter)
  then show ?case by simp
next
  case (3 r chunk match nrange x lo chunk1)
  then show ?case by (auto dest: getEsc_shorter)
qed

declare parseRanges.simps [simp del]

lemma parseRanges_shorter:
  "parseRanges r chunk match nrange = Some (rest, m) \<Longrightarrow> length rest < length chunk"
proof (induction r chunk match nrange rule: parseRanges.induct)
  case (1 r chunk match nrange)
  show ?case
  proof (cases "chunk \<noteq> [] \<and> hd chunk = CHR '']'' \<and> 0 < nrange")
    case True
    with "1.prems" have "rest = tl chunk"
      by (simp add: parseRanges.simps [of r chunk match nrange])
    with True show ?thesis by (cases chunk) auto
  next
    case False
    then have nc: "\<not> (chunk \<noteq> [] \<and> hd chunk = CHR '']'' \<and> 0 < nrange)" .
    from "1.prems" False obtain lo chunk1 where ge: "getEsc chunk = Some (lo, chunk1)"
      by (auto simp: parseRanges.simps [of r chunk] split: option.splits)
    have l1: "length chunk1 < length chunk"
      using ge by (rule getEsc_shorter)
    show ?thesis
    proof (cases "hd chunk1 = CHR ''-''")
      case True
      with "1.prems" nc ge obtain hi chunk2 where
        ge2: "getEsc (tl chunk1) = Some (hi, chunk2)" and
        rec: "parseRanges r chunk2 (match \<or> (lo \<le> r \<and> r \<le> hi)) (nrange + 1) = Some (rest, m)"
        by (auto simp: parseRanges.simps [of r chunk] split: option.splits)
      have "length rest < length chunk2"
        using "1.IH"(1) [OF nc ge refl True ge2 refl rec] .
      moreover have "length chunk2 < length (tl chunk1)"
        using ge2 by (rule getEsc_shorter)
      ultimately show ?thesis using l1 by simp
    next
      case False
      with "1.prems" nc ge have
        rec: "parseRanges r chunk1 (match \<or> lo = r) (nrange + 1) = Some (rest, m)"
        by (auto simp: parseRanges.simps [of r chunk] split: option.splits)
      have "length rest < length chunk1"
        using "1.IH"(2) [OF nc ge refl False rec] .
      then show ?thesis using l1 by simp
    qed
  qed
qed

text \<open>
  \<open>matchChunk(chunk, s)\<close>: the chunk (no star outside a class) is matched at the start of
  \<open>s\<close>. After the match has failed the loop goes on through the chunk to check that the
  pattern is well formed, no longer reading \<open>s\<close>. The result is \<open>None\<close> for
  \<open>ErrBadPattern\<close>, otherwise the rest of \<open>s\<close> and whether the chunk matched.
\<close>

definition afterRune :: "bool \<Rightarrow> string \<Rightarrow> string" where
  "afterRune failed s = (if failed then s else drop (snd (DecodeRuneInString s)) s)"

definition classRune :: "bool \<Rightarrow> string \<Rightarrow> nat" where
  "classRune failed s = (if failed then 0 else fst (DecodeRuneInString s))"

definition isNegated :: "string \<Rightarrow> bool" where
  "isNegated chunk1 = (chunk1 \<noteq> [] \<and> hd chunk1 = CHR ''^'')"

definition afterNegation :: "string \<Rightarrow> string" where
  "afterNegation chunk1 = (if isNegated chunk1 then tl chunk1 else chunk1)"

function matchChunkLoop :: "string \<Rightarrow> string \<Rightarrow> bool \<Rightarrow> (string \<times> bool) option" where
  "matchChunkLoop chunk s failed0 =
     (if chunk = [] then (if failed0 then Some ([], False) else Some (s, True))
      else if hd chunk = CHR ''['' then
        (case parseRanges (classRune (failed0 \<or> s = []) s) (afterNegation (tl chunk)) False 0 of
           None \<Rightarrow> None
         | Some (chunk3, match) \<Rightarrow>
             matchChunkLoop chunk3 (afterRune (failed0 \<or> s = []) s)
               (failed0 \<or> s = [] \<or> match = isNegated (tl chunk)))
      else if hd chunk = CHR ''?'' then
        matchChunkLoop (tl chunk) (afterRune (failed0 \<or> s = []) s)
          (failed0 \<or> s = [] \<or> hd s = Separator)
      else if hd chunk = CHR 0x5C then
        (if tl chunk = [] then None
         else matchChunkLoop (tl (tl chunk)) (if failed0 \<or> s = [] then s else tl s)
                (failed0 \<or> s = [] \<or> hd (tl chunk) \<noteq> hd s))
      else matchChunkLoop (tl chunk) (if failed0 \<or> s = [] then s else tl s)
             (failed0 \<or> s = [] \<or> hd chunk \<noteq> hd s))"
  by pat_completeness auto
termination
proof (relation "measure (\<lambda>(chunk, s, failed0). length chunk)", goal_cases)
  case 1
  show ?case by simp
next
  case (2 chunk s failed0 x chunk3 match)
  then have "length chunk3 < length (afterNegation (tl chunk))"
    by (auto dest: parseRanges_shorter)
  moreover have "length (afterNegation (tl chunk)) \<le> length (tl chunk)"
    by (cases "tl chunk") (auto simp: afterNegation_def)
  ultimately show ?case using 2 by (cases chunk) auto
next
  case (3 chunk s failed0)
  then show ?case by (cases chunk) auto
next
  case (4 chunk s failed0)
  then show ?case by (cases chunk) auto
next
  case (5 chunk s failed0)
  then show ?case by (cases chunk) auto
qed

declare matchChunkLoop.simps [simp del]

definition matchChunk :: "string \<Rightarrow> string \<Rightarrow> (string \<times> bool) option" where
  "matchChunk chunk s = matchChunkLoop chunk s False"

text \<open>
  The loop that \<open>Match\<close> runs after a star: the chunk is tried after skipping one more
  byte of the name each time, never across a separator. \<open>None\<close> is \<open>ErrBadPattern\<close>,
  \<open>Some None\<close> that no position matched, \<open>Some (Some t)\<close> the rest of the name after
  the first position that matched (for the last chunk, a match must use up the name).
\<close>

fun starLoop :: "string \<Rightarrow> bool \<Rightarrow> string \<Rightarrow> string option option" where
  "starLoop chunk lastChunk [] = Some None"
| "starLoop chunk lastChunk (c # cs) =
     (if c = Separator then Some None
      else case matchChunk chunk cs of
        None \<Rightarrow> None
      | Some (t, ok) \<Rightarrow>
          if ok \<and> \<not> (lastChunk \<and> t \<noteq> []) then Some (Some t)
          else starLoop chunk lastChunk cs)"

definition chunkStar :: "string \<Rightarrow> bool" where
  "chunkStar pattern = fst (scanChunk pattern)"

definition chunkOf :: "string \<Rightarrow> string" where
  "chunkOf pattern = fst (snd (scanChunk pattern))"

definition chunkRest :: "string \<Rightarrow> string" where
  "chunkRest pattern = snd (snd (scanChunk pattern))"

lemma scanLen_pos: "p \<noteq> [] \<Longrightarrow> hd p \<noteq> CHR ''*'' \<Longrightarrow> 0 < scanLen p inrange"
  by (cases p) (auto split: list.splits)

lemma chunkRest_shorter: "pattern \<noteq> [] \<Longrightarrow> length (chunkRest pattern) < length pattern"
proof (cases "hd pattern = CHR ''*''")
  case True
  assume ne: "pattern \<noteq> []"
  with True have "length (dropWhile (\<lambda>c. c = CHR ''*'') pattern) < length pattern"
    by (cases pattern) (auto intro: le_imp_less_Suc length_dropWhile_le)
  then show ?thesis
    by (simp add: chunkRest_def scanChunk_def Let_def)
next
  case False
  assume ne: "pattern \<noteq> []"
  with False have dw: "dropWhile (\<lambda>c. c = CHR ''*'') pattern = pattern"
    by (cases pattern) auto
  have "0 < scanLen pattern False"
    using ne False by (rule scanLen_pos)
  then show ?thesis
    using ne by (simp add: chunkRest_def scanChunk_def Let_def dw)
qed

text \<open>
  \<open>Match\<close>: the chunks are matched in order. When a chunk does not match and no
  position after a star matches either, the answer is "no match" without an error; the
  chunks not yet used are not looked at, so a malformed part of the pattern is reported
  only when matching reaches it.
\<close>

function Match :: "string \<Rightarrow> string \<Rightarrow> bool option" where
  "Match pattern name =
     (if pattern = [] then Some (name = [])
      else if chunkStar pattern \<and> chunkOf pattern = [] then Some (Separator \<notin> set name)
      else case matchChunk (chunkOf pattern) name of
        None \<Rightarrow> None
      | Some (t, ok) \<Rightarrow>
          if ok \<and> (t = [] \<or> chunkRest pattern \<noteq> []) then Match (chunkRest pattern) t
          else if chunkStar pattern then
            (case starLoop (chunkOf pattern) (chunkRest pattern = []) name of
               None \<Rightarrow> None
             | Some None \<Rightarrow> Some False
             | Some (Some t') \<Rightarrow> Match (chunkRest pattern) t')
          else Some False)"
  by pat_completeness auto
termination
  by (relation "measure (\<lambda>(pattern, name). length pattern)") (auto intro: chunkRest_shorter)

declare Match.simps [simp del]

section \<open>Pattern matching: \<open>isIgnored\<close> and \<open>isIncluded\<close>\<close>

text \<open>
  \<open>isIgnored(path, ignorePatterns)\<close>: the patterns are tried in order. A pattern for
  which the glob matcher reports an error is passed over (\<open>continue\<close>); otherwise the
  pattern decides when it glob-matches the base name or occurs in the path.
\<close>

fun isIgnored :: "string \<Rightarrow> string list \<Rightarrow> bool" where
  "isIgnored path [] = False"
| "isIgnored path (pattern # ignorePatterns) =
     (case Match pattern (Base path) of
        None \<Rightarrow> isIgnored path ignorePatterns
      | Some matched \<Rightarrow>
          if matched \<or> Contains path pattern then True
          else isIgnored path ignorePatterns)"

text \<open>
  \<open>isIncluded(path, includePatterns)\<close>: an empty pattern list includes every path;
  otherwise the loop is as in \<open>isIgnored\<close>, with \<open>strings.HasSuffix\<close> in the place of
  \<open>strings.Contains\<close>.
\<close>

fun includedBy :: "string \<Rightarrow> string list \<Rightarrow> bool" where
  "includedBy path [] = False"
| "includedBy path (pattern # includePatterns) =
     (case Match pattern (Base path) of
        None \<Rightarrow> includedBy path includePatterns
      | Some matched \<Rightarrow>
          if matched \<or> HasSuffix path pattern then True
          else includedBy path includePatterns)"

definition isIncluded :: "string \<Rightarrow> string list \<Rightarrow> bool" where
  "isIncluded path includePatterns =
     (if length includePatterns = 0 then True else includedBy path includePatterns)"

section \<open>Discovery: the directory walk\<close>

text \<open>
  Errors are opaque values of the operating system and the libraries; they are modelled
  by their messages.
\<close>

type_synonym err = string

text \<open>
  The directory tree as \<open>filepath.WalkDir\<close> sees it. A directory carries what
  \<open>os.ReadDir\<close> returns for it: the entries in name order and, when reading fails, the
  error (with the entries read before it). Whatever is not a directory (also a symbolic
  link, which the walk does not follow) is a \<open>File\<close>.
\<close>

datatype entry = File string | Dir string "err option" "entry list"

fun entryName :: "entry \<Rightarrow> string" where
  "entryName (File name) = name"
| "entryName (Dir name readErr entries) = name"

text \<open>
  \<open>main\<close> calls \<open>collectFilesContent\<close> with the root directory \<open>.\<close>, so the walk's
  paths are clean relative paths: \<open>.\<close> for the root and the names joined by the
  separator below it. On these paths \<open>filepath.Rel(rootDir, path)\<close> returns the path
  itself.
\<close>

definition rootDir :: string where
  "rootDir = ''.''"

definition Join :: "string \<Rightarrow> string \<Rightarrow> string" where
  "Join path name = (if path = ''.'' then name else path @ [Separator] @ name)"

definition Rel :: "string \<Rightarrow> string" where
  "Rel path = path"

text \<open>
  What the callback returns to the walk: \<open>nil\<close>, \<open>filepath.SkipDir\<close> or another
  error.
\<close>

datatype walk_result = Continue | SkipDir | Failed err

text \<open>
  The state of the walk: \<open>files\<close> is the candidate list that the callback appends to;
  \<open>visited\<close> records the path of every call of the callback, in order.
\<close>

record walk_state =
  files :: "string list"
  visited :: "string list"

text \<open>The callback that \<open>collectFilesContent\<close> passes to \<open>filepath.WalkDir\<close>.\<close>

definition walkFn ::
  "string list \<Rightarrow> string list \<Rightarrow> string \<Rightarrow> bool \<Rightarrow> err option \<Rightarrow> walk_state
     \<Rightarrow> walk_result \<times> walk_state" where
  "walkFn includePatterns ignorePatterns path isDir e st =
     (let st1 = st\<lparr>visited := visited st @ [path]\<rparr> in
      case e of
        Some er \<Rightarrow> (Failed er, st1)
      | None \<Rightarrow>
          if isDir then
            (if isIgnored (Rel path) ignorePatterns then (SkipDir, st1) else (Continue, st1))
          else if isIgnored (Rel path) ignorePatterns then (Continue, st1)
          else if \<not> isIncluded (Rel path) includePatterns then (Continue, st1)
          else (Continue, st1\<lparr>files := files st1 @ [path]\<rparr>))"

text \<open>
  \<open>walkDir\<close> of the library: the callback is called on the node; a directory that the
  callback did not skip is read, a read error is reported to the callback in a second
  call, and the entries are walked in order. \<open>SkipDir\<close> on a directory skips it;
  \<open>SkipDir\<close> from an entry that is not a directory ends the loop over its siblings;
  any other error ends the walk.
\<close>

fun walkDir ::
  "string list \<Rightarrow> string list \<Rightarrow> string \<Rightarrow> entry \<Rightarrow> walk_state
     \<Rightarrow> walk_result \<times> walk_state"
and walkEntries ::
  "string list \<Rightarrow> string list \<Rightarrow> string \<Rightarrow> entry list \<Rightarrow> walk_state
     \<Rightarrow> walk_result \<times> walk_state" where
  "walkDir inc ign path (File name) st = walkFn inc ign path False None st"
| "walkDir inc ign path (Dir name readErr entries) st =
     (case walkFn inc ign path True None st of
        (SkipDir, st1) \<Rightarrow> (Continue, st1)
      | (Failed e, st1) \<Rightarrow> (Failed e, st1)
      | (Continue, st1) \<Rightarrow>
          (case readErr of
             None \<Rightarrow> walkEntries inc ign path entries st1
           | Some e \<Rightarrow>
               (case walkFn inc ign path True (Some e) st1 of
                  (SkipDir, st2) \<Rightarrow> (Continue, st2)
                | (Failed e', st2) \<Rightarrow> (Failed e', st2)
                | (Continue, st2) \<Rightarrow> walkEntries inc ign path entries st2)))"
| "walkEntries inc ign path [] st = (Continue, st)"
| "walkEntries inc ign path (d1 # ds) st =
     (case walkDir inc ign (Join path (entryName d1)) d1 st of
        (Continue, st1) \<Rightarrow> walkEntries inc ign path ds st1
      | (SkipDir, st1) \<Rightarrow> (Continue, st1)
      | (Failed e, st1) \<Rightarrow> (Failed e, st1))"

text \<open>
  \<open>filepath.WalkDir(rootDir, fn)\<close>: \<open>root\<close> is what \<open>os.Lstat\<close> finds at the root, an
  error or the tree. The result is the error that the walk returns, if any.
\<close>

definition WalkDir ::
  "string list \<Rightarrow> string list \<Rightarrow> err + entry \<Rightarrow> walk_state \<Rightarrow> err option \<times> walk_state" where
  "WalkDir inc ign root st =
     (case (case root of
              Inl e \<Rightarrow> walkFn inc ign rootDir False (Some e) st
            | Inr d \<Rightarrow> walkDir inc ign rootDir d st) of
        (Failed e, st1) \<Rightarrow> (Some e, st1)
      | (r, st1) \<Rightarrow> (None, st1))"

text \<open>
  The discovery phase of \<open>collectFilesContent\<close>: the walk from the empty candidate list.
  An error of the walk is printed; the candidates found so far go on to processing.
\<close>

definition discover :: "string list \<Rightarrow> string list \<Rightarrow> err + entry \<Rightarrow> err option \<times> walk_state" where
  "discover inc ign root = WalkDir inc ign root \<lparr>files = [], visited = []\<rparr>"

section \<open>Processing one file\<close>

definition maxTotalTokens :: int where
  "maxTotalTokens = 50000"

definition maxFileSize :: nat where
  "maxFileSize = 1 * 1024 * 1024"

text \<open>
  What the operating system answers for one path, taken as unchanging during the run:
  the result of \<open>os.Stat\<close> (an error or the size), the error of \<open>os.Open\<close> if it
  fails, the bytes of the file, the result of the one \<open>Read\<close> into the 8000-byte buffer
  of \<open>isBinaryFile\<close> (an error other than end-of-file, or the number of bytes
  delivered), and the error that the line scanner meets while reading, if any.
\<close>

record osfile =
  statResult :: "err + nat"
  openError :: "err option"
  bytes :: string
  firstRead :: "err + nat"
  scanError :: "err option"

type_synonym filesystem = "string \<Rightarrow> osfile"

text \<open>
  The operations on the outside world that a call performs, in order: system calls, the
  tokenizer and the lines printed.
\<close>

datatype op = OpStat string | OpOpen string | OpRead string | OpScan string
  | OpEncode | OpPrint string

definition NUL :: char where
  "NUL = CHR 0x00"

definition newline :: string where
  "newline = [CHR 0x0A]"

text \<open>
  \<open>isBinaryFile(path)\<close>: the file is opened and read once into a buffer of 8000 bytes;
  the file is binary when one of the \<open>n\<close> bytes read is zero.
\<close>

definition sampledPrefix :: "osfile \<Rightarrow> nat \<Rightarrow> string" where
  "sampledPrefix f n = take (min n 8000) (bytes f)"

definition isBinaryFile :: "filesystem \<Rightarrow> string \<Rightarrow> op list \<times> (err + bool)" where
  "isBinaryFile fs path =
     (case openError (fs path) of
        Some e \<Rightarrow> ([OpOpen path], Inl e)
      | None \<Rightarrow>
          (case firstRead (fs path) of
             Inl e \<Rightarrow> ([OpOpen path, OpRead path], Inl e)
           | Inr n \<Rightarrow> ([OpOpen path, OpRead path], Inr (NUL \<in> set (sampledPrefix (fs path) n)))))"

text \<open>
  \<open>countTokens(text)\<close>: the number of tokens that the tokenizer, an external library,
  returns for the text. The tokenizer is a parameter \<open>encode\<close> of the model.
\<close>

type_synonym tokenizer = "string \<Rightarrow> nat list"

definition countTokens :: "tokenizer \<Rightarrow> string \<Rightarrow> int" where
  "countTokens encode text = int (length (encode text))"

text \<open>
  The lines that \<open>bufio.Scanner\<close> delivers: the text is cut at the newlines, a final
  line needs no newline, and a carriage return at the end of a line is dropped. A line
  that does not fit the scanner's buffer of 64 KiB is the error \<open>ErrTooLong\<close>.
\<close>

fun rawLines :: "string \<Rightarrow> string \<Rightarrow> string list" where
  "rawLines [] cur = (if cur = [] then [] else [cur])"
| "rawLines (c # cs) cur =
     (if c = CHR 0x0A then cur # rawLines cs [] else rawLines cs (cur @ [c]))"

definition dropCR :: "string \<Rightarrow> string" where
  "dropCR line = (if line \<noteq> [] \<and> last line = CHR 0x0D then butlast line else line)"

definition MaxScanTokenSize :: nat where
  "MaxScanTokenSize = 64 * 1024"

definition ErrTooLong :: err where
  "ErrTooLong = ''bufio.Scanner: token too long''"

definition scanLines :: "osfile \<Rightarrow> err + string list" where
  "scanLines f =
     (case scanError f of
        Some e \<Rightarrow> Inl e
      | None \<Rightarrow>
          if list_ex (\<lambda>l. MaxScanTokenSize \<le> length l) (rawLines (bytes f) [])
          then Inl ErrTooLong
          else Inr (map dropCR (rawLines (bytes f) [])))"

text \<open>
  \<open>processFile(path, rootDir)\<close> returns the formatted text, its token count and an
  error; the model returns the operations performed as well. A file that is too large
  or binary gives the empty text with zero tokens and no error.
\<close>

definition formatFile :: "string \<Rightarrow> string list \<Rightarrow> string" where
  "formatFile relativePath ls =
     ''File: '' @ relativePath @ newline @ concat (map (\<lambda>l. l @ newline) ls) @ newline"

definition processFile ::
  "tokenizer \<Rightarrow> filesystem \<Rightarrow> string \<Rightarrow> op list \<times> (err + string \<times> int)" where
  "processFile encode fs path =
     (case statResult (fs path) of
        Inl e \<Rightarrow> ([OpStat path], Inl (''Error stating file '' @ path @ '': '' @ e))
      | Inr sz \<Rightarrow>
          if maxFileSize < sz then
            ([OpStat path,
              OpPrint (''Skipping large file (>1MB): '' @ Rel path @ newline)],
             Inr ([], 0))
          else
            (case isBinaryFile fs path of
               (ops, Inl e) \<Rightarrow>
                 (OpStat path # ops, Inl (''Error checking if file is binary: '' @ e))
             | (ops, Inr True) \<Rightarrow>
                 (OpStat path # ops @ [OpPrint (''Skipping binary file: '' @ Rel path @ newline)],
                  Inr ([], 0))
             | (ops, Inr False) \<Rightarrow>
                 (case openError (fs path) of
                    Some e \<Rightarrow>
                      (OpStat path # ops @ [OpOpen path],
                       Inl (''Error opening file '' @ Rel path @ '': '' @ e))
                  | None \<Rightarrow>
                      (case scanLines (fs path) of
                         Inl e \<Rightarrow>
                           (OpStat path # ops @ [OpOpen path, OpScan path],
                            Inl (''Error reading file '' @ Rel path @ '': '' @ e))
                       | Inr ls \<Rightarrow>
                           (OpStat path # ops @ [OpOpen path, OpScan path, OpEncode],
                            Inr (formatFile (Rel path) ls,
                                 countTokens encode (formatFile (Rel path) ls)))))))"

section \<open>Processing phase: the workers and the token budget\<close>

text \<open>
  The processing phase of \<open>collectFilesContent\<close> is modelled as a transition system.
  The threads are the main goroutine, which runs the loop over the candidate list and
  then waits, and one worker goroutine for each candidate dispatched. Each step of a
  thread is one transition; a step that would block (a held mutex, a full semaphore
  channel, a wait group that is not zero) is not enabled. An interleaving of the
  threads is a list of actions, each naming the thread that takes the next step.
\<close>

datatype tid = Main | Worker nat

text \<open>
  The positions of the main goroutine: at \<open>mu.Lock()\<close> at the head of the loop; holding
  the lock before the test of \<open>totalTokens\<close>; at \<open>wg.Add(1)\<close>; at the send on \<open>sem\<close>
  that is followed by the \<open>go\<close> statement; at \<open>wg.Wait()\<close>; and past it.
\<close>

datatype main_pc = MLock | MCheck | MAdd | MSend | MWait | MDone

text \<open>
  The positions of a worker: not started; at the call of \<open>processFile\<close>; at
  \<open>mu.Lock()\<close>; holding the lock before the budget test; at \<open>WriteString\<close>; at the
  increment of \<open>totalTokens\<close>; at \<open>mu.Unlock()\<close>; at the deferred receive from \<open>sem\<close>;
  at the deferred \<open>wg.Done()\<close>; and returned.
\<close>

datatype worker_pc = WIdle | WProcess | WLock | WCheck | WWrite | WAdd | WUnlock
  | WRelease | WDone | WExited

text \<open>
  The shared state. \<open>totalTokens\<close> is the global counter, \<open>collectedContent\<close> the string
  builder, \<open>mu\<close> the holder of the mutex, \<open>sem\<close> the number of elements in the semaphore
  channel, \<open>wg\<close> the counter of the wait group, \<open>nextFile\<close> the index of the loop over
  the candidate list. \<open>merged\<close> is a history variable: the indices of the candidates
  whose text has been written to \<open>collectedContent\<close>, in the order of the writes. The
  lines printed are left out.
\<close>

record state =
  totalTokens :: int
  collectedContent :: string
  mu :: "tid option"
  sem :: nat
  wg :: nat
  nextFile :: nat
  mainPc :: main_pc
  workerPc :: "nat \<Rightarrow> worker_pc"
  merged :: "nat list"

definition maxGoroutines :: nat where
  "maxGoroutines = 10"

text \<open>Go's \<open>int\<close> has 64 bits on the platforms concerned; its addition wraps around.\<close>

definition wrap64 :: "int \<Rightarrow> int" where
  "wrap64 i = (i + 2 ^ 63) mod 2 ^ 64 - 2 ^ 63"

text \<open>
  What \<open>processFile\<close> returns to worker \<open>i\<close>; with an error it returns the empty text
  and zero.
\<close>

definition processed ::
  "tokenizer \<Rightarrow> filesystem \<Rightarrow> string list \<Rightarrow> nat \<Rightarrow> err + string \<times> int" where
  "processed encode fs candidates i = snd (processFile encode fs (candidates ! i))"

definition contentOf :: "err + string \<times> int \<Rightarrow> string" where
  "contentOf r = (case r of Inl e \<Rightarrow> [] | Inr (content, tokenCount) \<Rightarrow> content)"

definition tokenCountOf :: "err + string \<times> int \<Rightarrow> int" where
  "tokenCountOf r = (case r of Inl e \<Rightarrow> 0 | Inr (content, tokenCount) \<Rightarrow> tokenCount)"

definition initState :: state where
  "initState =
     \<lparr>totalTokens = 0, collectedContent = [], mu = None, sem = 0, wg = 0, nextFile = 0,
      mainPc = MLock, workerPc = (\<lambda>i. WIdle), merged = []\<rparr>"

definition mainStep :: "string list \<Rightarrow> state \<Rightarrow> state option" where
  "mainStep candidates s =
     (case mainPc s of
        MLock \<Rightarrow>
          if nextFile s < length candidates then
            (if mu s = None then Some (s\<lparr>mu := Some Main, mainPc := MCheck\<rparr>) else None)
          else Some (s\<lparr>mainPc := MWait\<rparr>)
      | MCheck \<Rightarrow>
          if maxTotalTokens \<le> totalTokens s then Some (s\<lparr>mu := None, mainPc := MWait\<rparr>)
          else Some (s\<lparr>mu := None, mainPc := MAdd\<rparr>)
      | MAdd \<Rightarrow> Some (s\<lparr>wg := wg s + 1, mainPc := MSend\<rparr>)
      | MSend \<Rightarrow>
          if sem s < maxGoroutines then
            Some (s\<lparr>sem := sem s + 1,
                    workerPc := (workerPc s)(nextFile s := WProcess),
                    nextFile := nextFile s + 1,
                    mainPc := MLock\<rparr>)
          else None
      | MWait \<Rightarrow> if wg s = 0 then Some (s\<lparr>mainPc := MDone\<rparr>) else None
      | MDone \<Rightarrow> None)"

definition setPc :: "nat \<Rightarrow> worker_pc \<Rightarrow> state \<Rightarrow> state" where
  "setPc i pc s = s\<lparr>workerPc := (workerPc s)(i := pc)\<rparr>"

definition workerStep ::
  "tokenizer \<Rightarrow> filesystem \<Rightarrow> string list \<Rightarrow> nat \<Rightarrow> state \<Rightarrow> state option" where
  "workerStep encode fs candidates i s =
     (let r = processed encode fs candidates i in
      case workerPc s i of
        WIdle \<Rightarrow> None
      | WProcess \<Rightarrow>
          (case r of
             Inl e \<Rightarrow> Some (setPc i WRelease s)
           | Inr res \<Rightarrow> Some (setPc i WLock s))
      | WLock \<Rightarrow>
          if mu s = None then Some (setPc i WCheck (s\<lparr>mu := Some (Worker i)\<rparr>)) else None
      | WCheck \<Rightarrow>
          if wrap64 (totalTokens s + tokenCountOf r) \<le> maxTotalTokens
          then Some (setPc i WWrite s)
          else Some (setPc i WUnlock s)
      | WWrite \<Rightarrow>
          Some (setPc i WAdd
                  (s\<lparr>collectedContent := collectedContent s @ contentOf r,
                     merged := merged s @ [i]\<rparr>))
      | WAdd \<Rightarrow>
          Some (setPc i WUnlock (s\<lparr>totalTokens := wrap64 (totalTokens s + tokenCountOf r)\<rparr>))
      | WUnlock \<Rightarrow> Some (setPc i WRelease (s\<lparr>mu := None\<rparr>))
      | WRelease \<Rightarrow>
          if 0 < sem s then Some (setPc i WDone (s\<lparr>sem := sem s - 1\<rparr>)) else None
      | WDone \<Rightarrow>
          if 0 < wg s then Some (setPc i WExited (s\<lparr>wg := wg s - 1\<rparr>)) else None
      | WExited \<Rightarrow> None)"

datatype action = MainStep | WorkerStep nat

fun step ::
  "tokenizer \<Rightarrow> filesystem \<Rightarrow> string list \<Rightarrow> action \<Rightarrow> state \<Rightarrow> state option" where
  "step encode fs candidates MainStep s = mainStep candidates s"
| "step encode fs candidates (WorkerStep i) s = workerStep encode fs candidates i s"

text \<open>
  A run under a schedule: \<open>None\<close> when the schedule names a thread that has no step.
  A thread has no step where it blocks (\<open>mu.Lock()\<close> on a held mutex, a send on the full
  channel, a receive from the empty channel, \<open>wg.Wait()\<close> on a counter that is not
  zero), where it has returned, and where \<open>wg.Done()\<close> would make the counter negative
  and panic, which ends the program.
\<close>

fun run ::
  "tokenizer \<Rightarrow> filesystem \<Rightarrow> string list \<Rightarrow> action list \<Rightarrow> state \<Rightarrow> state option" where
  "run encode fs candidates [] s = Some s"
| "run encode fs candidates (a # as) s =
     (case step encode fs candidates a s of
        None \<Rightarrow> None
      | Some s' \<Rightarrow> run encode fs candidates as s')"

text \<open>
  The token counts leave room for the limit below the largest \<open>int\<close>: a token count is
  the length of a slice in memory.
\<close>

definition tokensFit :: "tokenizer \<Rightarrow> filesystem \<Rightarrow> string list \<Rightarrow> bool" where
  "tokensFit encode fs candidates =
     list_all (\<lambda>path. tokenCountOf (snd (processFile encode fs path))
                       \<le> 2 ^ 63 - 1 - maxTotalTokens) candidates"

text \<open>
  The workers in flight in a state (dispatched and not yet returned), and the largest
  token count among their files (zero when there is none).
\<close>

definition inFlight :: "state \<Rightarrow> nat \<Rightarrow> bool" where
  "inFlight s i = (workerPc s i \<noteq> WIdle \<and> workerPc s i \<noteq> WExited)"

definition maxInFlight :: "tokenizer \<Rightarrow> filesystem \<Rightarrow> string list \<Rightarrow> state \<Rightarrow> int" where
  "maxInFlight encode fs candidates s =
     foldr (\<lambda>i m. if inFlight s i then max (tokenCountOf (processed encode fs candidates i)) m
                   else m)
       [0..<nextFile s] 0"

text \<open>
  Invariants of the processing phase. A worker holds the mutex exactly between its
  \<open>mu.Lock()\<close> and its \<open>mu.Unlock()\<close>, the main goroutine exactly at its test.
\<close>

definition holdsLock :: "worker_pc \<Rightarrow> bool" where
  "holdsLock pc = (pc = WCheck \<or> pc = WWrite \<or> pc = WAdd \<or> pc = WUnlock)"

definition lockInv :: "state \<Rightarrow> bool" where
  "lockInv s =
     ((\<forall>i. holdsLock (workerPc s i) = (mu s = Some (Worker i))) \<and>
      ((mainPc s = MCheck) = (mu s = Some Main)))"

text \<open>
  The counter is within the limit, and a worker that has passed the budget test still
  passes it until it has added its token count.
\<close>

definition passedTest :: "worker_pc \<Rightarrow> bool" where
  "passedTest pc = (pc = WWrite \<or> pc = WAdd)"

definition budgetInv :: "tokenizer \<Rightarrow> filesystem \<Rightarrow> string list \<Rightarrow> state \<Rightarrow> bool" where
  "budgetInv encode fs candidates s =
     (totalTokens s \<le> maxTotalTokens \<and>
      (\<forall>i. passedTest (workerPc s i) \<longrightarrow>
         wrap64 (totalTokens s + tokenCountOf (processed encode fs candidates i))
           \<le> maxTotalTokens))"

text \<open>The workers started are those of the candidates before the loop index.\<close>

definition dispatching :: "main_pc \<Rightarrow> bool" where
  "dispatching pc = (pc = MCheck \<or> pc = MAdd \<or> pc = MSend)"

definition spawnInv :: "string list \<Rightarrow> state \<Rightarrow> bool" where
  "spawnInv candidates s =
     (nextFile s \<le> length candidates \<and>
      (\<forall>i. workerPc s i \<noteq> WIdle \<longrightarrow> i < nextFile s) \<and>
      (dispatching (mainPc s) \<longrightarrow> nextFile s < length candidates))"

text \<open>
  The content is the concatenation of the texts of the candidates merged, in the order
  of the writes; a candidate is merged at most once, by a worker whose call of
  \<open>processFile\<close> returned no error and that has passed its write.
\<close>

definition succeeded :: "err + string \<times> int \<Rightarrow> bool" where
  "succeeded r = (case r of Inl e \<Rightarrow> False | Inr res \<Rightarrow> True)"

definition awaitsMerge :: "worker_pc \<Rightarrow> bool" where
  "awaitsMerge pc = (pc = WLock \<or> pc = WCheck \<or> pc = WWrite)"

definition hasWritten :: "worker_pc \<Rightarrow> bool" where
  "hasWritten pc = (pc = WAdd \<or> pc = WUnlock \<or> pc = WRelease \<or> pc = WDone \<or> pc = WExited)"

definition mergedOk :: "tokenizer \<Rightarrow> filesystem \<Rightarrow> string list \<Rightarrow> state \<Rightarrow> nat \<Rightarrow> bool" where
  "mergedOk encode fs candidates s i =
     (hasWritten (workerPc s i) \<and> succeeded (processed encode fs candidates i))"

definition contentInv :: "tokenizer \<Rightarrow> filesystem \<Rightarrow> string list \<Rightarrow> state \<Rightarrow> bool" where
  "contentInv encode fs candidates s =
     (collectedContent s
        = concat (map (\<lambda>i. contentOf (processed encode fs candidates i)) (merged s)) \<and>
      distinct (merged s) \<and>
      list_all (mergedOk encode fs candidates s) (merged s) \<and>
      (\<forall>i. awaitsMerge (workerPc s i) \<longrightarrow> succeeded (processed encode fs candidates i)))"

definition inv :: "tokenizer \<Rightarrow> filesystem \<Rightarrow> string list \<Rightarrow> state \<Rightarrow> bool" where
  "inv encode fs candidates s =
     (lockInv s \<and> budgetInv encode fs candidates s \<and> spawnInv candidates s \<and>
      contentInv encode fs candidates s)"

text \<open>
  The semaphore counts the workers that hold a slot (started and not yet past the
  deferred receive), the wait group those that have not returned, and one more between
  \<open>wg.Add(1)\<close> and the \<open>go\<close> statement.
\<close>

definition unfinished :: "worker_pc \<Rightarrow> bool" where
  "unfinished pc = (pc \<noteq> WIdle \<and> pc \<noteq> WExited)"

definition holdsSlot :: "worker_pc \<Rightarrow> bool" where
  "holdsSlot pc = (pc \<noteq> WIdle \<and> pc \<noteq> WDone \<and> pc \<noteq> WExited)"

definition countPc :: "(worker_pc \<Rightarrow> bool) \<Rightarrow> (nat \<Rightarrow> worker_pc) \<Rightarrow> nat" where
  "countPc P f = card {i. P (f i)}"

definition joinInv :: "state \<Rightarrow> bool" where
  "joinInv s =
     (sem s = countPc holdsSlot (workerPc s) \<and>
      sem s \<le> maxGoroutines \<and>
      wg s = countPc unfinished (workerPc s) + (if mainPc s = MSend then 1 else 0) \<and>
      (mainPc s = MDone \<longrightarrow> wg s = 0))"

text \<open>
  The token counts of the candidates merged add up to the counter, but for the count of
  the worker that has written its text and not yet added its tokens.
\<close>

definition pendingAdd :: "tokenizer \<Rightarrow> filesystem \<Rightarrow> string list \<Rightarrow> state \<Rightarrow> int" where
  "pendingAdd encode fs candidates s =
     (case mu s of
        Some (Worker i) \<Rightarrow>
          if workerPc s i = WAdd then tokenCountOf (processed encode fs candidates i) else 0
      | _ \<Rightarrow> 0)"

definition mergedTokens :: "tokenizer \<Rightarrow> filesystem \<Rightarrow> string list \<Rightarrow> state \<Rightarrow> int" where
  "mergedTokens encode fs candidates s =
     sum_list (map (\<lambda>i. tokenCountOf (processed encode fs candidates i)) (merged s))"

definition sumInv :: "tokenizer \<Rightarrow> filesystem \<Rightarrow> string list \<Rightarrow> state \<Rightarrow> bool" where
  "sumInv encode fs candidates s =
     (0 \<le> totalTokens s \<and>
      mergedTokens encode fs candidates s
        = totalTokens s + pendingAdd encode fs candidates s)"

text \<open>
  The path reached from \<open>path\<close> by going down through entries of the given names, and
  the directories passed on the way (the path itself first, the parent of the path
  reached last). A path is reached through kept directories when none of the
  directories on the way to it is ignored.
\<close>

fun descend :: "string \<Rightarrow> string list \<Rightarrow> string" where
  "descend path [] = path"
| "descend path (name # names) = descend (Join path name) names"

fun dirsAlong :: "string \<Rightarrow> string list \<Rightarrow> string list" where
  "dirsAlong path [] = []"
| "dirsAlong path (name # names) = path # dirsAlong (Join path name) names"

definition reachedVia :: "string list \<Rightarrow> string \<Rightarrow> string \<Rightarrow> bool" where
  "reachedVia ign path f =
     (\<exists>names. f = descend path names \<and>
        list_all (\<lambda>q. \<not> isIgnored (Rel q) ign) (dirsAlong path names))"

text \<open>
  The candidates accepted by the budget test in a run. A step accepts candidate \<open>i\<close>
  when it is the step of worker \<open>i\<close> at its budget test and the test
  \<open>totalTokens + tokenCount \<le> maxTotalTokens\<close> holds; \<open>accepted\<close> lists the candidates
  accepted along a schedule, in the order of the tests. A worker that holds the mutex at
  \<open>WriteString\<close> has been accepted and has not yet written its text.
\<close>

definition awaitingWrite :: "state \<Rightarrow> nat list" where
  "awaitingWrite s =
     (case mu s of
        Some (Worker i) \<Rightarrow> if workerPc s i = WWrite then [i] else []
      | _ \<Rightarrow> [])"

definition acceptsAt ::
  "tokenizer \<Rightarrow> filesystem \<Rightarrow> string list \<Rightarrow> action \<Rightarrow> state \<Rightarrow> nat list" where
  "acceptsAt encode fs candidates a s =
     (case a of
        MainStep \<Rightarrow> []
      | WorkerStep i \<Rightarrow>
          if workerPc s i = WCheck \<and>
             wrap64 (totalTokens s + tokenCountOf (processed encode fs candidates i))
               \<le> maxTotalTokens
          then [i] else [])"

fun accepted ::
  "tokenizer \<Rightarrow> filesystem \<Rightarrow> string list \<Rightarrow> action list \<Rightarrow> state \<Rightarrow> nat list" where
  "accepted encode fs candidates [] s = []"
| "accepted encode fs candidates (a # as) s =
     (case step encode fs candidates a s of
        None \<Rightarrow> []
      | Some s' \<Rightarrow> acceptsAt encode fs candidates a s @ accepted encode fs candidates as s')"

text \<open>
  A second sample run, with a tokenizer that counts 10 tokens for every text: both
  candidates pass the budget test, the second before the first.
\<close>

definition smallEncode :: tokenizer where
  "smallEncode text = replicate 10 0"

definition finishAccepted :: "action list" where
  "finishAccepted = [WorkerStep 1, WorkerStep 1, WorkerStep 1, WorkerStep 0, WorkerStep 0,
     WorkerStep 0, WorkerStep 0, WorkerStep 0, WorkerStep 0, WorkerStep 0, WorkerStep 0,
     WorkerStep 1, WorkerStep 1, MainStep]"

definition sampleTextA :: string where
  "sampleTextA = ''File: a.go'' @ newline @ ''x'' @ newline @ newline"

text \<open>Whether the glob matcher reports an error for the pattern at this path.\<close>

definition globError :: "string \<Rightarrow> string \<Rightarrow> bool" where
  "globError path pattern = (Match pattern (Base path) = None)"

text \<open>What the callback requires of a file before it appends it to the candidates.\<close>

definition candidateOk :: "string list \<Rightarrow> string list \<Rightarrow> string \<Rightarrow> bool" where
  "candidateOk inc ign f = (\<not> isIgnored (Rel f) ign \<and> isIncluded (Rel f) inc)"

text \<open>
  Two files for the examples: one above the size ceiling, one with a zero byte in the
  bytes read.
\<close>

definition bigFile :: osfile where
  "bigFile = \<lparr>statResult = Inr 1048577, openError = None, bytes = [NUL], firstRead = Inr 1,
     scanError = None\<rparr>"

definition binFile :: osfile where
  "binFile = \<lparr>statResult = Inr 3, openError = None, bytes = [CHR ''a'', NUL, CHR ''b''],
     firstRead = Inr 3, scanError = None\<rparr>"

text \<open>
  A sample run for the examples: a tokenizer that counts 30000 tokens for every text, two
  candidates with one line each, and a schedule in three parts. The main goroutine
  dispatches both workers; the second worker processes its file, takes the lock and
  passes the budget test; then it writes its text, adds its tokens and unlocks, the first
  worker fails the budget test, and all return.
\<close>

definition sampleEncode :: tokenizer where
  "sampleEncode text = replicate 30000 0"

definition sampleFile :: osfile where
  "sampleFile = \<lparr>statResult = Inr 2, openError = None, bytes = ''x'' @ newline,
     firstRead = Inr 2, scanError = None\<rparr>"

definition sampleFs :: filesystem where
  "sampleFs path = sampleFile"

definition sampleCandidates :: "string list" where
  "sampleCandidates = [''a.go'', ''b.go'']"

definition dispatchBoth :: "action list" where
  "dispatchBoth = [MainStep, MainStep, MainStep, MainStep, MainStep, MainStep, MainStep,
     MainStep, MainStep]"

definition secondPasses :: "action list" where
  "secondPasses = [WorkerStep 1, WorkerStep 1, WorkerStep 1]"

definition finishBoth :: "action list" where
  "finishBoth = [WorkerStep 1, WorkerStep 1, WorkerStep 1, WorkerStep 0, WorkerStep 0,
     WorkerStep 0, WorkerStep 0, WorkerStep 0, WorkerStep 0, WorkerStep 1, WorkerStep 1,
     MainStep]"

definition sampleText :: string where
  "sampleText = ''File: b.go'' @ newline @ ''x'' @ newline @ newline"

section \<open>Properties of the pattern matcher\<close>

lemma Contains_sublist: "Contains s p \<longleftrightarrow> (\<exists>ps ss. s = ps @ p @ ss)"
proof -
  have "Contains s p \<longleftrightarrow> sublist p s"
    by (induction s) (auto simp: sublist_Cons_right)
  then show ?thesis by (simp add: sublist_def)
qed

lemma isIgnored_iff:
  "isIgnored path pats \<longleftrightarrow>
     (\<exists>p \<in> set pats. Match p (Base path) \<noteq> None \<and>
        (Match p (Base path) = Some True \<or> Contains path p))"
  by (induction pats) (auto split: option.splits)

lemma includedBy_iff:
  "includedBy path pats \<longleftrightarrow>
     (\<exists>p \<in> set pats. Match p (Base path) \<noteq> None \<and>
        (Match p (Base path) = Some True \<or> HasSuffix path p))"
  by (induction pats) (auto split: option.splits)

text \<open>
  Claim C3, as amended. A path is ignored iff some ignore pattern is accepted by the glob
  matcher without error and either glob-matches the base name of the path or occurs in
  the path as a substring. A path is included iff the include list is empty or some
  include pattern is accepted by the glob matcher without error and either glob-matches
  the base name or is a suffix of the path. A substring that is not a suffix does not
  include a path.
\<close>

theorem pattern_match_semantics:
  "(isIgnored path ignorePatterns \<longleftrightarrow>
      (\<exists>p \<in> set ignorePatterns. Match p (Base path) \<noteq> None \<and>
         (Match p (Base path) = Some True \<or> Contains path p))) \<and>
   (isIncluded path includePatterns \<longleftrightarrow>
      includePatterns = [] \<or>
      (\<exists>p \<in> set includePatterns. Match p (Base path) \<noteq> None \<and>
         (Match p (Base path) = Some True \<or> HasSuffix path p)))"
  by (simp add: isIgnored_iff includedBy_iff isIncluded_def)

theorem pattern_match_semantics_witness:
  "isIgnored ''vendor/x.go'' [''vendor''] \<and> isIncluded ''vendor/x.go'' [''.go'']
   \<and> \<not> isIgnored ''main.go'' [''vendor''] \<and> \<not> isIncluded ''main.go'' [''.txt'']"
proof -
  have m1: "Match ''vendor'' (Base ''vendor/x.go'') = Some False" by code_simp
  have c1: "Contains ''vendor/x.go'' ''vendor''" by code_simp
  have m2: "Match ''.go'' (Base ''vendor/x.go'') = Some False" by code_simp
  have c2: "HasSuffix ''vendor/x.go'' ''.go''" by code_simp
  have m3: "Match ''vendor'' (Base ''main.go'') = Some False" by code_simp
  have c3: "\<not> Contains ''main.go'' ''vendor''" by code_simp
  have m4: "Match ''.txt'' (Base ''main.go'') = Some False" by code_simp
  have c4: "\<not> HasSuffix ''main.go'' ''.txt''" by code_simp
  show ?thesis
    using pattern_match_semantics [of "''vendor/x.go''" "[''vendor'']" "[''.go'']"]
      pattern_match_semantics [of "''main.go''" "[''vendor'']" "[''.txt'']"]
      m1 c1 m2 c2 m3 c3 m4 c4
    by simp
qed

text \<open>
  Claim C3 as stated fails: the path \<open>vendor/x.go\<close> contains the include pattern
  \<open>vendor\<close> as a substring that is not a suffix, and is not included.
\<close>

theorem isIncluded_substring_counterexample:
  "Contains ''vendor/x.go'' ''vendor'' \<and> \<not> HasSuffix ''vendor/x.go'' ''vendor''
   \<and> \<not> isIncluded ''vendor/x.go'' [''vendor'']"
  by code_simp

text \<open>
  Claim C5, as amended. A pattern for which the glob matcher reports an error at the base
  name of the path is passed over as a whole for that path: neither its glob test nor its
  substring (or suffix) test counts. \<open>isIgnored\<close> gives the result of the list without
  these patterns; \<open>isIncluded\<close> with a list that is not empty gives the result of the
  list without these patterns, and false when none is left. The scan is never aborted:
  both functions return a truth value for every input.
\<close>

theorem malformed_pattern_skipped:
  "isIgnored path ignorePatterns
     = isIgnored path (filter (\<lambda>p. \<not> globError path p) ignorePatterns) \<and>
   isIncluded path includePatterns
     = (includePatterns = [] \<or>
        (filter (\<lambda>p. \<not> globError path p) includePatterns \<noteq> [] \<and>
         isIncluded path (filter (\<lambda>p. \<not> globError path p) includePatterns)))"
proof
  show "isIgnored path ignorePatterns
     = isIgnored path (filter (\<lambda>p. \<not> globError path p) ignorePatterns)"
    by (induction ignorePatterns) (auto simp: globError_def split: option.splits)
  have "includedBy path includePatterns
     = includedBy path (filter (\<lambda>p. \<not> globError path p) includePatterns)"
    by (induction includePatterns) (auto simp: globError_def split: option.splits)
  then show "isIncluded path includePatterns
     = (includePatterns = [] \<or>
        (filter (\<lambda>p. \<not> globError path p) includePatterns \<noteq> [] \<and>
         isIncluded path (filter (\<lambda>p. \<not> globError path p) includePatterns)))"
    by (auto simp: isIncluded_def)
qed

theorem malformed_pattern_skipped_witness:
  "globError ''tmp[1].txt'' ''tmp['' \<and> \<not> globError ''tmp[1].txt'' ''*.md'' \<and>
   isIgnored ''tmp[1].txt'' [''tmp['', ''*.md''] = isIgnored ''tmp[1].txt'' [''*.md''] \<and>
   \<not> isIgnored ''tmp[1].txt'' [''tmp['', ''*.md''] \<and>
   globError ''a.go'' ''['' \<and> \<not> isIncluded ''a.go'' [''['']"
proof -
  have g: "globError ''tmp[1].txt'' ''tmp[''" "\<not> globError ''tmp[1].txt'' ''*.md''"
    "globError ''a.go'' ''[''"
    by (simp_all add: globError_def) code_simp+
  have n: "\<not> isIgnored ''tmp[1].txt'' [''*.md'']" by code_simp
  from malformed_pattern_skipped [of "''tmp[1].txt''" "[''tmp['', ''*.md'']" "[''['']"]
    malformed_pattern_skipped [of "''a.go''" "[]" "[''['']"] g n
  show ?thesis by simp
qed

text \<open>
  Claim C5 as stated fails: the pattern \<open>tmp[\<close> is malformed and occurs in the path
  \<open>tmp[1].txt\<close>, which is not ignored.
\<close>

theorem malformed_substring_counterexample:
  "Match ''tmp['' (Base ''tmp[1].txt'') = None \<and> Contains ''tmp[1].txt'' ''tmp[''
   \<and> \<not> isIgnored ''tmp[1].txt'' [''tmp['']"
  by code_simp

text \<open>
  The matcher reports a malformed pattern only where matching reaches the malformed part.
  Where it answers "no match" without an error, the substring test is applied as for any
  pattern: the pattern \<open>src*[\<close> excludes the path \<open>src*[/file.txt\<close>.
\<close>

lemma unreported_malformed_pattern:
  "Match ''src*['' (Base ''src*[/file.txt'') = Some False \<and>
   isIgnored ''src*[/file.txt'' [''src*['']"
  by code_simp

section \<open>Properties of the discovery walk: filtering\<close>

lemma walkFn_files:
  "walkFn inc ign path isDir e st = (r, st') \<Longrightarrow>
     files st' = files st \<or>
     (files st' = files st @ [path] \<and> \<not> isDir \<and> e = None \<and> r = Continue
        \<and> candidateOk inc ign path)"
  by (auto simp: walkFn_def candidateOk_def Let_def split: option.splits if_splits)

lemma walkFn_dir_files: "walkFn inc ign path True e st = (r, st') \<Longrightarrow> files st' = files st"
  by (drule walkFn_files) auto

lemma walkFn_extends:
  "walkFn inc ign path isDir e st = (r, st') \<Longrightarrow>
     \<exists>new. files st' = files st @ new \<and> list_all (candidateOk inc ign) new"
  by (drule walkFn_files) auto

lemma walk_extends:
  shows "walkDir inc ign path d st = (r, st') \<Longrightarrow>
      \<exists>new. files st' = files st @ new \<and> list_all (candidateOk inc ign) new"
    and "walkEntries inc ign path ds st = (r, st') \<Longrightarrow>
      \<exists>new. files st' = files st @ new \<and> list_all (candidateOk inc ign) new"
proof (induction inc ign path d st and inc ign path ds st arbitrary: r st' and r st'
    rule: walkDir_walkEntries.induct)
  case (1 inc ign path name st)
  then show ?case by (auto dest: walkFn_extends)
next
  case (2 inc ign path name readErr entries st)
  obtain r1 st1 where f1: "walkFn inc ign path True None st = (r1, st1)"
    by (cases "walkFn inc ign path True None st")
  have fs1: "files st1 = files st"
    using f1 by (rule walkFn_dir_files)
  show ?case
  proof (cases r1)
    case Continue
    show ?thesis
    proof (cases readErr)
      case None
      with "2.prems" f1 Continue have "walkEntries inc ign path entries st1 = (r, st')" by simp
      with "2.IH"(1) [OF f1 [symmetric] Continue None] fs1 show ?thesis by simp
    next
      case (Some e)
      obtain r2 st2 where f2: "walkFn inc ign path True (Some e) st1 = (r2, st2)"
        by (cases "walkFn inc ign path True (Some e) st1")
      have fs2: "files st2 = files st"
        using walkFn_dir_files [OF f2] fs1 by simp
      show ?thesis
      proof (cases r2)
        case Continue
        with "2.prems" f1 f2 Some \<open>r1 = Continue\<close>
        have "walkEntries inc ign path entries st2 = (r, st')" by simp
        with "2.IH"(2) [OF f1 [symmetric] \<open>r1 = Continue\<close> Some f2 [symmetric] Continue] fs2
        show ?thesis by simp
      next
        case SkipDir
        with "2.prems" f1 f2 Some \<open>r1 = Continue\<close> fs2 show ?thesis by auto
      next
        case (Failed x)
        with "2.prems" f1 f2 Some \<open>r1 = Continue\<close> fs2 show ?thesis by auto
      qed
    qed
  next
    case SkipDir
    with "2.prems" f1 fs1 show ?thesis by auto
  next
    case (Failed x)
    with "2.prems" f1 fs1 show ?thesis by auto
  qed
next
  case (3 inc ign path st)
  then show ?case by auto
next
  case (4 inc ign path d1 ds st)
  obtain r1 st1 where f1: "walkDir inc ign (Join path (entryName d1)) d1 st = (r1, st1)"
    by (cases "walkDir inc ign (Join path (entryName d1)) d1 st")
  obtain new1 where n1: "files st1 = files st @ new1" "list_all (candidateOk inc ign) new1"
    using "4.IH"(1) [OF f1] by blast
  show ?case
  proof (cases r1)
    case Continue
    with "4.prems" f1 have "walkEntries inc ign path ds st1 = (r, st')" by simp
    from "4.IH"(2) [OF f1 [symmetric] Continue this]
    obtain new2 where "files st' = files st1 @ new2" "list_all (candidateOk inc ign) new2"
      by blast
    with n1 have "files st' = files st @ (new1 @ new2) \<and> list_all (candidateOk inc ign) (new1 @ new2)"
      by simp
    then show ?thesis by blast
  next
    case SkipDir
    with "4.prems" f1 n1 show ?thesis by auto
  next
    case (Failed x)
    with "4.prems" f1 n1 show ?thesis by auto
  qed
qed

lemma discover_candidates:
  assumes "discover inc ign root = (e, st)"
  shows "list_all (candidateOk inc ign) (files st)"
proof (cases root)
  case (Inl er)
  with assms have "files st = []"
    by (auto simp: discover_def WalkDir_def walkFn_def)
  then show ?thesis by simp
next
  case (Inr d)
  obtain r st1 where w: "walkDir inc ign rootDir d \<lparr>files = [], visited = []\<rparr> = (r, st1)"
    by (cases "walkDir inc ign rootDir d \<lparr>files = [], visited = []\<rparr>")
  with assms Inr have "st = st1"
    by (cases r) (auto simp: discover_def WalkDir_def)
  with walk_extends(1) [OF w] show ?thesis by auto
qed

text \<open>
  Claim C7. Exclusion takes precedence over inclusion: a path that matches an ignore
  pattern is not in the candidate list that discovery returns, whether or not it matches
  an include pattern. (The witness is the scenario of the specification, include pattern
  \<open>.go\<close> and ignore pattern \<open>vendor\<close>, with a file \<open>vendor.go\<close> that matches both.)
\<close>

theorem exclusion_precedence:
  "discover inc ign root = (e, st) \<Longrightarrow> isIgnored (Rel f) ign \<Longrightarrow> f \<notin> set (files st)"
  by (auto dest!: discover_candidates simp: list_all_iff candidateOk_def)

theorem exclusion_precedence_witness:
  "isIgnored (Rel ''vendor.go'') [''vendor''] \<and> isIncluded (Rel ''vendor.go'') [''.go'']
   \<and> ''vendor.go'' \<notin> set (files (snd (discover [''.go''] [''vendor'']
        (Inr (Dir ''.'' None [File ''main.go'', File ''vendor.go'',
                Dir ''vendor'' None [File ''x.go'']])))))
   \<and> files (snd (discover [''.go''] [''vendor'']
        (Inr (Dir ''.'' None [File ''main.go'', File ''vendor.go'',
                Dir ''vendor'' None [File ''x.go'']])))) = [''main.go'']"
proof -
  have h1: "isIgnored (Rel ''vendor.go'') [''vendor'']" by code_simp
  have h2: "isIncluded (Rel ''vendor.go'') [''.go'']" by code_simp
  have h3: "files (snd (discover [''.go''] [''vendor'']
        (Inr (Dir ''.'' None [File ''main.go'', File ''vendor.go'',
                Dir ''vendor'' None [File ''x.go'']])))) = [''main.go'']" by code_simp
  from exclusion_precedence [OF prod.collapse [symmetric] h1] h1 h2 h3 show ?thesis by blast
qed

text \<open>
  Claim C6. A directory whose relative path matches an ignore pattern is pruned: the walk
  of it returns at once, whatever the directory contains and whatever the include
  patterns are. The directory is not read, the callback is called on no entry below it
  (\<open>visited\<close> grows by the directory itself only), and the candidate list is unchanged.
\<close>

theorem excluded_directory_pruned:
  "isIgnored (Rel path) ign \<Longrightarrow>
     walkDir inc ign path (Dir name readErr entries) st
       = (Continue, st\<lparr>visited := visited st @ [path]\<rparr>)"
  by (simp add: walkFn_def)

theorem excluded_directory_pruned_witness:
  "isIgnored (Rel ''vendor'') [''vendor''] \<and> isIncluded (Rel ''vendor/x.go'') [''.go'']
   \<and> walkDir [''.go''] [''vendor''] ''vendor'' (Dir ''vendor'' None [File ''x.go''])
        \<lparr>files = [''main.go''], visited = [''.'', ''main.go'']\<rparr>
      = (Continue, \<lparr>files = [''main.go''], visited = [''.'', ''main.go'', ''vendor'']\<rparr>)"
proof -
  have h1: "isIgnored (Rel ''vendor'') [''vendor'']" by code_simp
  have h2: "isIncluded (Rel ''vendor/x.go'') [''.go'']" by code_simp
  from excluded_directory_pruned [OF h1, of "[''.go'']" "''vendor''" None "[File ''x.go'']"
      "\<lparr>files = [''main.go''], visited = [''.'', ''main.go'']\<rparr>"] h1 h2
  show ?thesis by simp
qed


section \<open>Properties of the discovery walk: errors\<close>




section \<open>Properties of \<open>processFile\<close>\<close>

text \<open>
  Claim C8. A file larger than 1 MiB is skipped after \<open>os.Stat\<close> alone: the file is
  neither opened nor read, so the binary check is not performed. A file of at most 1 MiB
  whose bytes read by \<open>isBinaryFile\<close> contain a zero byte is skipped as binary. In both
  cases a line is printed and \<open>processFile\<close> returns the empty text, zero tokens and no
  error.
\<close>

theorem processFile_skip_contract:
  "(statResult (fs path) = Inr sz \<and> maxFileSize < sz \<longrightarrow>
      processFile encode fs path
        = ([OpStat path, OpPrint (''Skipping large file (>1MB): '' @ Rel path @ newline)],
           Inr ([], 0))) \<and>
   (statResult (fs path) = Inr sz \<and> sz \<le> maxFileSize \<and> openError (fs path) = None \<and>
    firstRead (fs path) = Inr n \<and> NUL \<in> set (sampledPrefix (fs path) n) \<longrightarrow>
      processFile encode fs path
        = ([OpStat path, OpOpen path, OpRead path,
            OpPrint (''Skipping binary file: '' @ Rel path @ newline)],
           Inr ([], 0)))"
  by (simp add: processFile_def isBinaryFile_def)

theorem processFile_skip_contract_witness:
  "statResult bigFile = Inr 1048577 \<and> maxFileSize < 1048577 \<and>
   processFile (\<lambda>t. []) (\<lambda>p. bigFile) ''big.dat''
     = ([OpStat ''big.dat'', OpPrint (''Skipping large file (>1MB): big.dat'' @ newline)],
        Inr ([], 0)) \<and>
   statResult binFile = Inr 3 \<and> 3 \<le> maxFileSize \<and> openError binFile = None \<and>
   firstRead binFile = Inr 3 \<and> NUL \<in> set (sampledPrefix binFile 3) \<and>
   processFile (\<lambda>t. []) (\<lambda>p. binFile) ''b.png''
     = ([OpStat ''b.png'', OpOpen ''b.png'', OpRead ''b.png'',
         OpPrint (''Skipping binary file: b.png'' @ newline)],
        Inr ([], 0))"
proof -
  have a: "statResult bigFile = Inr 1048577" "maxFileSize < 1048577"
    by (simp_all add: bigFile_def maxFileSize_def)
  have b: "statResult binFile = Inr 3" "3 \<le> maxFileSize" "openError binFile = None"
    "firstRead binFile = Inr 3" "NUL \<in> set (sampledPrefix binFile 3)"
    by (simp_all add: binFile_def maxFileSize_def sampledPrefix_def)
  from processFile_skip_contract [of "\<lambda>p. bigFile" "''big.dat''" 1048577 "\<lambda>t. []" 0]
    processFile_skip_contract [of "\<lambda>p. binFile" "''b.png''" 3 "\<lambda>t. []" 3] a b
  show ?thesis by (simp add: Rel_def)
qed

section \<open>Properties of the processing phase\<close>

lemma wrap64_id: "- (2 ^ 63) \<le> i \<Longrightarrow> i < 2 ^ 63 \<Longrightarrow> wrap64 i = i"
  by (simp add: wrap64_def)

lemma tokenCountOf_nonneg: "0 \<le> tokenCountOf (processed encode fs candidates i)"
  by (auto simp: tokenCountOf_def processed_def processFile_def countTokens_def
      split: sum.splits prod.splits option.splits bool.splits if_splits)

lemma tokensFit_nth:
  "tokensFit encode fs candidates \<Longrightarrow> i < length candidates \<Longrightarrow>
     tokenCountOf (processed encode fs candidates i) \<le> 2 ^ 63 - 1 - maxTotalTokens"
  by (simp add: tokensFit_def processed_def list_all_length)

lemma wrap64_sum:
  assumes "0 \<le> t" "t \<le> maxTotalTokens" "0 \<le> c" "c \<le> 2 ^ 63 - 1 - maxTotalTokens"
  shows "wrap64 (t + c) = t + c"
  using assms by (intro wrap64_id) (simp_all add: maxTotalTokens_def)

lemma spawnInv_main:
  assumes "spawnInv candidates s" and "mainStep candidates s = Some s'"
  shows "spawnInv candidates s'"
proof -
  have N: "workerPc s j \<noteq> WIdle \<longrightarrow> j < nextFile s" for j
    using assms(1) by (simp add: spawnInv_def)
  have B: "nextFile s \<le> length candidates"
    "dispatching (mainPc s) \<longrightarrow> nextFile s < length candidates"
    using assms(1) by (simp_all add: spawnInv_def)
  have "workerPc s' j \<noteq> WIdle \<longrightarrow> j < nextFile s'" for j
    using N [of j] assms(2)
    by (auto simp: mainStep_def split: main_pc.splits if_splits)
  moreover have "nextFile s' \<le> length candidates"
    using B assms(2)
    by (auto simp: mainStep_def dispatching_def split: main_pc.splits if_splits)
  moreover have "dispatching (mainPc s') \<longrightarrow> nextFile s' < length candidates"
    using B assms(2)
    by (auto simp: mainStep_def dispatching_def split: main_pc.splits if_splits)
  ultimately show ?thesis by (simp add: spawnInv_def)
qed

lemma spawnInv_worker:
  assumes "spawnInv candidates s" and "workerStep encode fs candidates i s = Some s'"
  shows "spawnInv candidates s'"
proof -
  have N: "workerPc s j \<noteq> WIdle \<longrightarrow> j < nextFile s" for j
    using assms(1) by (simp add: spawnInv_def)
  have B: "nextFile s \<le> length candidates"
    "dispatching (mainPc s) \<longrightarrow> nextFile s < length candidates"
    using assms(1) by (simp_all add: spawnInv_def)
  have E: "nextFile s' = nextFile s" "mainPc s' = mainPc s"
    using assms(2)
    by (auto simp: workerStep_def setPc_def Let_def split: worker_pc.splits if_splits sum.splits)
  have "workerPc s' j \<noteq> WIdle \<longrightarrow> j < nextFile s'" for j
    using N [of j] N [of i] assms(2)
    by (auto simp: workerStep_def setPc_def Let_def split: worker_pc.splits if_splits sum.splits)
  with B E show ?thesis by (simp add: spawnInv_def)
qed

lemma lockInv_main:
  assumes "lockInv s" and "spawnInv candidates s" and "mainStep candidates s = Some s'"
  shows "lockInv s'"
proof -
  have L: "holdsLock (workerPc s j) = (mu s = Some (Worker j))" for j
    using assms(1) by (simp add: lockInv_def)
  have M: "(mainPc s = MCheck) = (mu s = Some Main)"
    using assms(1) by (simp add: lockInv_def)
  have I: "workerPc s (nextFile s) = WIdle"
    using assms(2) by (auto simp: spawnInv_def)
  have "holdsLock (workerPc s' j) = (mu s' = Some (Worker j))" for j
    using L [of j] M I assms(3)
    by (auto simp: mainStep_def holdsLock_def split: main_pc.splits if_splits)
  moreover have "(mainPc s' = MCheck) = (mu s' = Some Main)"
    using M assms(3) by (auto simp: mainStep_def split: main_pc.splits if_splits)
  ultimately show ?thesis by (simp add: lockInv_def)
qed

lemma lockInv_worker:
  assumes "lockInv s" and "workerStep encode fs candidates i s = Some s'"
  shows "lockInv s'"
proof -
  have L: "holdsLock (workerPc s j) = (mu s = Some (Worker j))" for j
    using assms(1) by (simp add: lockInv_def)
  have M: "(mainPc s = MCheck) = (mu s = Some Main)"
    using assms(1) by (simp add: lockInv_def)
  have "holdsLock (workerPc s' j) = (mu s' = Some (Worker j))" for j
    using L [of j] L [of i] M assms(2)
    by (auto simp: workerStep_def setPc_def Let_def holdsLock_def
        split: worker_pc.splits if_splits sum.splits)
  moreover have "(mainPc s' = MCheck) = (mu s' = Some Main)"
    using L [of i] M assms(2)
    by (auto simp: workerStep_def setPc_def Let_def holdsLock_def
        split: worker_pc.splits if_splits sum.splits)
  ultimately show ?thesis by (simp add: lockInv_def)
qed

lemma budgetInv_main:
  assumes "budgetInv encode fs candidates s" and "spawnInv candidates s"
    and "mainStep candidates s = Some s'"
  shows "budgetInv encode fs candidates s'"
proof -
  have T: "totalTokens s \<le> maxTotalTokens"
    using assms(1) by (simp add: budgetInv_def)
  have P: "passedTest (workerPc s j) \<longrightarrow>
      wrap64 (totalTokens s + tokenCountOf (processed encode fs candidates j)) \<le> maxTotalTokens"
    for j
    using assms(1) by (simp add: budgetInv_def)
  have E: "totalTokens s' = totalTokens s"
    using assms(3) by (auto simp: mainStep_def split: main_pc.splits if_splits)
  have "passedTest (workerPc s' j) \<longrightarrow> passedTest (workerPc s j)" for j
    using assms(3)
    by (auto simp: mainStep_def passedTest_def split: main_pc.splits if_splits)
  with T P E show ?thesis by (simp add: budgetInv_def)
qed

lemma budgetInv_worker:
  assumes "budgetInv encode fs candidates s" and "lockInv s"
    and "workerStep encode fs candidates i s = Some s'"
  shows "budgetInv encode fs candidates s'"
proof -
  have T: "totalTokens s \<le> maxTotalTokens"
    using assms(1) by (simp add: budgetInv_def)
  have P: "passedTest (workerPc s j) \<longrightarrow>
      wrap64 (totalTokens s + tokenCountOf (processed encode fs candidates j)) \<le> maxTotalTokens"
    for j
    using assms(1) by (simp add: budgetInv_def)
  have L: "holdsLock (workerPc s j) = (mu s = Some (Worker j))" for j
    using assms(2) by (simp add: lockInv_def)
  have T': "totalTokens s' \<le> maxTotalTokens"
    using T P [of i] assms(3)
    by (auto simp: workerStep_def setPc_def Let_def passedTest_def
        split: worker_pc.splits if_splits sum.splits)
  have "passedTest (workerPc s' j) \<longrightarrow>
      wrap64 (totalTokens s' + tokenCountOf (processed encode fs candidates j)) \<le> maxTotalTokens"
    for j
    using P [of j] L [of i] L [of j] assms(3)
    by (auto simp: workerStep_def setPc_def Let_def passedTest_def holdsLock_def
        split: worker_pc.splits if_splits sum.splits)
  with T' show ?thesis by (simp add: budgetInv_def)
qed

lemma contentInv_main:
  assumes "contentInv encode fs candidates s" and "spawnInv candidates s"
    and "mainStep candidates s = Some s'"
  shows "contentInv encode fs candidates s'"
proof -
  have E: "collectedContent s' = collectedContent s" "merged s' = merged s"
    using assms(3) by (auto simp: mainStep_def split: main_pc.splits if_splits)
  have I: "workerPc s (nextFile s) = WIdle"
    using assms(2) by (auto simp: spawnInv_def)
  have W: "hasWritten (workerPc s' j)" if "hasWritten (workerPc s j)" for j
    using that I assms(3)
    by (auto simp: mainStep_def hasWritten_def split: main_pc.splits if_splits)
  have A: "awaitsMerge (workerPc s j)" if "awaitsMerge (workerPc s' j)" for j
    using that assms(3)
    by (auto simp: mainStep_def awaitsMerge_def split: main_pc.splits if_splits)
  have "list_all (mergedOk encode fs candidates s') (merged s)"
    using assms(1) W by (auto simp: contentInv_def list_all_iff mergedOk_def)
  with assms(1) E A show ?thesis by (auto simp: contentInv_def)
qed

lemma contentInv_worker:
  assumes "contentInv encode fs candidates s"
    and "workerStep encode fs candidates i s = Some s'"
  shows "contentInv encode fs candidates s'"
proof -
  have A: "succeeded (processed encode fs candidates j)" if "awaitsMerge (workerPc s' j)" for j
  proof -
    have "awaitsMerge (workerPc s j) \<or> succeeded (processed encode fs candidates j)"
      using that assms(2)
      by (auto simp: workerStep_def setPc_def Let_def awaitsMerge_def succeeded_def
          split: worker_pc.splits if_splits sum.splits)
    with assms(1) show ?thesis by (auto simp: contentInv_def)
  qed
  show ?thesis
  proof (cases "workerPc s i = WWrite")
    case True
    with assms(2) have s': "s' = setPc i WAdd
        (s\<lparr>collectedContent := collectedContent s @ contentOf (processed encode fs candidates i),
           merged := merged s @ [i]\<rparr>)"
      by (simp add: workerStep_def Let_def)
    have ni: "i \<notin> set (merged s)"
      using assms(1) True by (auto simp: contentInv_def list_all_iff mergedOk_def hasWritten_def)
    have ok: "succeeded (processed encode fs candidates i)"
      using assms(1) True by (auto simp: contentInv_def awaitsMerge_def)
    have "list_all (mergedOk encode fs candidates s') (merged s @ [i])"
      using assms(1) ok ni
      by (auto simp: contentInv_def list_all_iff mergedOk_def s' setPc_def hasWritten_def)
    moreover have "collectedContent s'
        = concat (map (\<lambda>i. contentOf (processed encode fs candidates i)) (merged s @ [i]))"
      using assms(1) by (simp add: contentInv_def s' setPc_def)
    moreover have "distinct (merged s @ [i])"
      using assms(1) ni by (simp add: contentInv_def)
    moreover have "merged s' = merged s @ [i]"
      by (simp add: s' setPc_def)
    ultimately show ?thesis using A by (simp add: contentInv_def)
  next
    case False
    with assms(2) have E: "collectedContent s' = collectedContent s" "merged s' = merged s"
      by (auto simp: workerStep_def setPc_def Let_def
          split: worker_pc.splits if_splits sum.splits)
    have W: "hasWritten (workerPc s' j)" if "hasWritten (workerPc s j)" for j
      using that False assms(2)
      by (auto simp: workerStep_def setPc_def Let_def hasWritten_def
          split: worker_pc.splits if_splits sum.splits)
    have "list_all (mergedOk encode fs candidates s') (merged s)"
      using assms(1) W by (auto simp: contentInv_def list_all_iff mergedOk_def)
    with assms(1) E A show ?thesis by (simp add: contentInv_def)
  qed
qed

lemma inv_step:
  assumes "inv encode fs candidates s" and "step encode fs candidates a s = Some s'"
  shows "inv encode fs candidates s'"
proof (cases a)
  case MainStep
  with assms show ?thesis
    by (auto simp: inv_def intro: lockInv_main budgetInv_main spawnInv_main contentInv_main)
next
  case (WorkerStep i)
  with assms show ?thesis
    by (auto simp: inv_def
        intro: lockInv_worker budgetInv_worker spawnInv_worker contentInv_worker)
qed

lemma inv_init: "inv encode fs candidates initState"
  by (simp add: inv_def initState_def lockInv_def budgetInv_def spawnInv_def contentInv_def
      holdsLock_def passedTest_def dispatching_def awaitsMerge_def maxTotalTokens_def)

lemma inv_run:
  "inv encode fs candidates s \<Longrightarrow> run encode fs candidates sched s = Some s' \<Longrightarrow>
     inv encode fs candidates s'"
proof (induction sched arbitrary: s)
  case Nil
  then show ?case by simp
next
  case (Cons a sched)
  from Cons.prems(2) obtain s1 where
    st: "step encode fs candidates a s = Some s1" and
    rn: "run encode fs candidates sched s1 = Some s'"
    by (auto split: option.splits)
  from Cons.prems(1) st have "inv encode fs candidates s1" by (rule inv_step)
  then show ?case using rn by (rule Cons.IH)
qed

lemma inv_reachable:
  "run encode fs candidates sched initState = Some s \<Longrightarrow> inv encode fs candidates s"
  using inv_init by (rule inv_run)

lemma run_append:
  "run encode fs candidates (xs @ ys) s
     = (case run encode fs candidates xs s of
          None \<Rightarrow> None
        | Some s1 \<Rightarrow> run encode fs candidates ys s1)"
  by (induction xs arbitrary: s) (auto split: option.splits)

text \<open>
  Claim C9. The strict budget bound: in every state that any interleaving of the main
  goroutine and the workers reaches, \<open>totalTokens\<close> is at most \<open>maxTotalTokens\<close>; so
  it is when the run ends. No overshoot occurs.
\<close>

theorem budget_never_exceeded:
  "run encode fs candidates sched initState = Some s \<Longrightarrow> totalTokens s \<le> maxTotalTokens"
  by (drule inv_reachable) (simp add: inv_def budgetInv_def)

lemma maxInFlight_nonneg: "0 \<le> maxInFlight encode fs candidates s"
proof -
  have "0 \<le> foldr (\<lambda>i m. if inFlight s i
      then max (tokenCountOf (processed encode fs candidates i)) m else m) xs 0" for xs
    by (induction xs) auto
  then show ?thesis by (simp add: maxInFlight_def)
qed

text \<open>
  Claim C2. For every interleaving, the value of \<open>totalTokens\<close> after all workers have
  joined (\<open>wg.Wait()\<close> has returned) is at most \<open>maxTotalTokens\<close> plus the largest token
  count among the files in flight at any earlier moment \<open>s1\<close> of the run, in particular
  at the moment the budget was exhausted. (The witness is a run that ends below the
  limit: equality with the limit is not guaranteed.)
\<close>

theorem bounded_overshoot:
  "run encode fs candidates sched1 initState = Some s1 \<Longrightarrow>
   run encode fs candidates sched2 s1 = Some s2 \<Longrightarrow>
   mainPc s2 = MDone \<Longrightarrow>
   totalTokens s2 \<le> maxTotalTokens + maxInFlight encode fs candidates s1"
proof -
  assume r1: "run encode fs candidates sched1 initState = Some s1"
    and r2: "run encode fs candidates sched2 s1 = Some s2"
  from r1 have "inv encode fs candidates s1" by (rule inv_reachable)
  then have "inv encode fs candidates s2" using r2 by (rule inv_run)
  then have "totalTokens s2 \<le> maxTotalTokens" by (simp add: inv_def budgetInv_def)
  with maxInFlight_nonneg [of encode fs candidates s1] show ?thesis by simp
qed

lemma worker_bound:
  "spawnInv candidates s \<Longrightarrow> workerPc s i \<noteq> WIdle \<Longrightarrow> i < length candidates"
  by (force simp: spawnInv_def)

lemma step_counter:
  assumes fit: "tokensFit encode fs candidates"
    and iv: "inv encode fs candidates s"
    and nn: "0 \<le> totalTokens s"
    and st: "step encode fs candidates a s = Some s'"
  shows "totalTokens s' = totalTokens s \<or>
     (\<exists>i. a = WorkerStep i \<and> workerPc s i = WAdd \<and>
        totalTokens s' = totalTokens s + tokenCountOf (processed encode fs candidates i))"
proof (cases a)
  case MainStep
  with st show ?thesis
    by (auto simp: mainStep_def split: main_pc.splits if_splits)
next
  case (WorkerStep i)
  show ?thesis
  proof (cases "workerPc s i = WAdd")
    case True
    from iv have "spawnInv candidates s" by (simp add: inv_def)
    then have "i < length candidates" using True by (auto intro: worker_bound)
    with fit have c: "tokenCountOf (processed encode fs candidates i)
        \<le> 2 ^ 63 - 1 - maxTotalTokens"
      by (rule tokensFit_nth)
    from iv have t: "totalTokens s \<le> maxTotalTokens" by (simp add: inv_def budgetInv_def)
    have "wrap64 (totalTokens s + tokenCountOf (processed encode fs candidates i))
        = totalTokens s + tokenCountOf (processed encode fs candidates i)"
      using nn t tokenCountOf_nonneg c by (rule wrap64_sum)
    with st WorkerStep True show ?thesis
      by (auto simp: workerStep_def Let_def setPc_def)
  next
    case False
    with st WorkerStep show ?thesis
      by (auto simp: workerStep_def setPc_def Let_def
          split: worker_pc.splits if_splits sum.splits)
  qed
qed

lemma step_nonneg:
  assumes "tokensFit encode fs candidates" and "inv encode fs candidates s"
    and "0 \<le> totalTokens s" and "step encode fs candidates a s = Some s'"
  shows "totalTokens s \<le> totalTokens s'"
  using step_counter [OF assms] tokenCountOf_nonneg [of encode fs candidates] by auto

lemma run_nonneg:
  "tokensFit encode fs candidates \<Longrightarrow> inv encode fs candidates s \<Longrightarrow> 0 \<le> totalTokens s \<Longrightarrow>
   run encode fs candidates sched s = Some s' \<Longrightarrow> totalTokens s \<le> totalTokens s'"
proof (induction sched arbitrary: s)
  case Nil
  then show ?case by simp
next
  case (Cons a sched)
  from Cons.prems(4) obtain s1 where
    st: "step encode fs candidates a s = Some s1" and
    rn: "run encode fs candidates sched s1 = Some s'"
    by (auto split: option.splits)
  have le: "totalTokens s \<le> totalTokens s1"
    using Cons.prems(1-3) st by (rule step_nonneg)
  have "inv encode fs candidates s1"
    using Cons.prems(2) st by (rule inv_step)
  from Cons.IH [OF Cons.prems(1) this _ rn] le Cons.prems(3) show ?case by simp
qed

lemma reachable_nonneg:
  "tokensFit encode fs candidates \<Longrightarrow> run encode fs candidates sched initState = Some s \<Longrightarrow>
     0 \<le> totalTokens s"
  using run_nonneg [of encode fs candidates initState sched s] inv_init [of encode fs candidates]
  by (simp add: initState_def)

lemma step_content:
  assumes st: "step encode fs candidates a s = Some s'"
  shows "collectedContent s' = collectedContent s \<or>
     (\<exists>i. a = WorkerStep i \<and> workerPc s i = WWrite \<and> workerPc s' i = WAdd \<and>
        collectedContent s'
          = collectedContent s @ contentOf (processed encode fs candidates i))"
proof (cases a)
  case MainStep
  with st show ?thesis
    by (auto simp: mainStep_def split: main_pc.splits if_splits)
next
  case (WorkerStep i)
  with st show ?thesis
    by (auto simp: workerStep_def setPc_def Let_def
        split: worker_pc.splits if_splits sum.splits)
qed

lemma passed_fits:
  assumes fit: "tokensFit encode fs candidates"
    and iv: "inv encode fs candidates s"
    and nn: "0 \<le> totalTokens s"
    and pt: "passedTest (workerPc s i)"
  shows "totalTokens s + tokenCountOf (processed encode fs candidates i) \<le> maxTotalTokens"
proof -
  from iv have sp: "spawnInv candidates s" by (simp add: inv_def)
  from pt have "workerPc s i \<noteq> WIdle" by (auto simp: passedTest_def)
  with sp have "i < length candidates" by (rule worker_bound)
  with fit have c: "tokenCountOf (processed encode fs candidates i)
      \<le> 2 ^ 63 - 1 - maxTotalTokens"
    by (rule tokensFit_nth)
  from iv have t: "totalTokens s \<le> maxTotalTokens" by (simp add: inv_def budgetInv_def)
  have "wrap64 (totalTokens s + tokenCountOf (processed encode fs candidates i))
      = totalTokens s + tokenCountOf (processed encode fs candidates i)"
    using nn t tokenCountOf_nonneg c by (rule wrap64_sum)
  moreover from iv pt
  have "wrap64 (totalTokens s + tokenCountOf (processed encode fs candidates i))
      \<le> maxTotalTokens"
    by (simp add: inv_def budgetInv_def)
  ultimately show ?thesis by simp
qed

lemma lock_excludes:
  assumes iv: "inv encode fs candidates s"
    and st: "step encode fs candidates a s = Some s'"
    and mu: "mu s = Some (Worker j)"
    and other: "a \<noteq> WorkerStep j"
  shows "totalTokens s' = totalTokens s \<and> collectedContent s' = collectedContent s \<and>
     mu s' = mu s \<and> workerPc s' j = workerPc s j"
proof -
  from iv have li: "lockInv s" and sp: "spawnInv candidates s" by (simp_all add: inv_def)
  have L: "holdsLock (workerPc s k) = (mu s = Some (Worker k))" for k
    using li by (simp add: lockInv_def)
  have M: "mainPc s \<noteq> MCheck"
    using li mu by (simp add: lockInv_def)
  show ?thesis
  proof (cases a)
    case MainStep
    have "workerPc s j \<noteq> WIdle"
      using L [of j] mu by (auto simp: holdsLock_def)
    with sp have "j \<noteq> nextFile s" by (auto simp: spawnInv_def)
    with st MainStep M mu show ?thesis
      by (auto simp: mainStep_def split: main_pc.splits if_splits)
  next
    case (WorkerStep i)
    with other have ij: "i \<noteq> j" by simp
    with L [of i] mu have "\<not> holdsLock (workerPc s i)" by simp
    with st WorkerStep mu ij show ?thesis
      by (auto simp: workerStep_def setPc_def Let_def holdsLock_def
          split: worker_pc.splits if_splits sum.splits)
  qed
qed

text \<open>
  Claim C1. The budget merge is an atomic check-then-act. For every step from a reachable
  state: \<open>totalTokens\<close> does not decrease; the content changes only by the
  \<open>WriteString\<close> of a worker that holds the mutex and for which
  \<open>totalTokens + tokenCount \<le> maxTotalTokens\<close> holds at that moment, and it changes by
  appending the worker's text; \<open>totalTokens\<close> changes only by the increment of a worker
  that holds the mutex, has written its text, and for which the test still holds, and it
  grows by the token count; and while a worker holds the mutex, no step of another
  thread changes the counter, the content, the mutex or the worker's position. The token
  counts are taken to leave room for the limit below the largest \<open>int\<close>.
\<close>

theorem budget_merge_atomic:
  assumes fit: "tokensFit encode fs candidates"
    and rn: "run encode fs candidates sched initState = Some s"
    and st: "step encode fs candidates a s = Some s'"
  shows "totalTokens s \<le> totalTokens s' \<and>
     (collectedContent s' \<noteq> collectedContent s \<longrightarrow>
        (\<exists>i. a = WorkerStep i \<and> workerPc s i = WWrite \<and> workerPc s' i = WAdd \<and>
           mu s = Some (Worker i) \<and> mu s' = Some (Worker i) \<and>
           totalTokens s + tokenCountOf (processed encode fs candidates i) \<le> maxTotalTokens \<and>
           totalTokens s' = totalTokens s \<and>
           collectedContent s'
             = collectedContent s @ contentOf (processed encode fs candidates i))) \<and>
     (totalTokens s' \<noteq> totalTokens s \<longrightarrow>
        (\<exists>i. a = WorkerStep i \<and> workerPc s i = WAdd \<and>
           mu s = Some (Worker i) \<and> mu s' = Some (Worker i) \<and>
           totalTokens s + tokenCountOf (processed encode fs candidates i) \<le> maxTotalTokens \<and>
           totalTokens s' = totalTokens s + tokenCountOf (processed encode fs candidates i) \<and>
           collectedContent s' = collectedContent s)) \<and>
     (\<forall>j. mu s = Some (Worker j) \<and> a \<noteq> WorkerStep j \<longrightarrow>
        totalTokens s' = totalTokens s \<and> collectedContent s' = collectedContent s \<and>
        mu s' = mu s \<and> workerPc s' j = workerPc s j)"
proof -
  from rn have iv: "inv encode fs candidates s" by (rule inv_reachable)
  from fit rn have nn: "0 \<le> totalTokens s" by (rule reachable_nonneg)
  from iv st have iv': "inv encode fs candidates s'" by (rule inv_step)
  from iv have li: "lockInv s" by (simp add: inv_def)
  from iv' have li': "lockInv s'" by (simp add: inv_def)
  have mono: "totalTokens s \<le> totalTokens s'"
    using fit iv nn st by (rule step_nonneg)
  have content: "\<exists>i. a = WorkerStep i \<and> workerPc s i = WWrite \<and> workerPc s' i = WAdd \<and>
           mu s = Some (Worker i) \<and> mu s' = Some (Worker i) \<and>
           totalTokens s + tokenCountOf (processed encode fs candidates i) \<le> maxTotalTokens \<and>
           totalTokens s' = totalTokens s \<and>
           collectedContent s'
             = collectedContent s @ contentOf (processed encode fs candidates i)"
    if ch: "collectedContent s' \<noteq> collectedContent s"
  proof -
    from step_content [OF st] ch obtain i where
      i: "a = WorkerStep i" "workerPc s i = WWrite" "workerPc s' i = WAdd"
        "collectedContent s' = collectedContent s @ contentOf (processed encode fs candidates i)"
      by blast
    have "mu s = Some (Worker i)"
      using li i(2) by (auto simp: lockInv_def holdsLock_def)
    moreover have "mu s' = Some (Worker i)"
      using li' i(3) by (auto simp: lockInv_def holdsLock_def)
    moreover have "totalTokens s + tokenCountOf (processed encode fs candidates i)
        \<le> maxTotalTokens"
      using fit iv nn i(2) by (intro passed_fits) (simp_all add: passedTest_def)
    moreover have "totalTokens s' = totalTokens s"
      using step_counter [OF fit iv nn st] i(1,2) by auto
    ultimately show ?thesis using i by blast
  qed
  have counter: "\<exists>i. a = WorkerStep i \<and> workerPc s i = WAdd \<and>
           mu s = Some (Worker i) \<and> mu s' = Some (Worker i) \<and>
           totalTokens s + tokenCountOf (processed encode fs candidates i) \<le> maxTotalTokens \<and>
           totalTokens s' = totalTokens s + tokenCountOf (processed encode fs candidates i) \<and>
           collectedContent s' = collectedContent s"
    if ch: "totalTokens s' \<noteq> totalTokens s"
  proof -
    from step_counter [OF fit iv nn st] ch obtain i where
      i: "a = WorkerStep i" "workerPc s i = WAdd"
        "totalTokens s' = totalTokens s + tokenCountOf (processed encode fs candidates i)"
      by blast
    have "mu s = Some (Worker i)"
      using li i(2) by (auto simp: lockInv_def holdsLock_def)
    moreover have "workerPc s' i = WUnlock"
      using st i(1,2) by (auto simp: workerStep_def Let_def setPc_def)
    then have "mu s' = Some (Worker i)"
      using li' by (auto simp: lockInv_def holdsLock_def)
    moreover have "totalTokens s + tokenCountOf (processed encode fs candidates i)
        \<le> maxTotalTokens"
      using fit iv nn i(2) by (intro passed_fits) (simp_all add: passedTest_def)
    moreover have "collectedContent s' = collectedContent s"
      using step_content [OF st] i(1,2) by auto
    ultimately show ?thesis using i by blast
  qed
  have excl: "\<forall>j. mu s = Some (Worker j) \<and> a \<noteq> WorkerStep j \<longrightarrow>
        totalTokens s' = totalTokens s \<and> collectedContent s' = collectedContent s \<and>
        mu s' = mu s \<and> workerPc s' j = workerPc s j"
    using lock_excludes [OF iv st] by blast
  from mono content counter excl show ?thesis by blast
qed


lemma sample_processFile:
  "snd (processFile sampleEncode sampleFs p)
     = Inr (''File: '' @ p @ newline @ ''x'' @ newline @ newline, 30000)"
  by (simp add: processFile_def isBinaryFile_def sampleFs_def sampleFile_def sampledPrefix_def
      scanLines_def newline_def NUL_def MaxScanTokenSize_def dropCR_def formatFile_def
      countTokens_def sampleEncode_def Rel_def maxFileSize_def)

lemma sample_processed:
  "processed sampleEncode sampleFs cs i
     = Inr (''File: '' @ cs ! i @ newline @ ''x'' @ newline @ newline, 30000)"
  by (simp add: processed_def sample_processFile)

lemma sample_tokensFit: "tokensFit sampleEncode sampleFs sampleCandidates"
  by (simp add: tokensFit_def sample_processFile tokenCountOf_def maxTotalTokens_def
      sampleCandidates_def)

lemmas sample_eval = run_append dispatchBoth_def secondPasses_def finishBoth_def
  mainStep_def workerStep_def setPc_def initState_def sample_processed tokenCountOf_def
  contentOf_def maxTotalTokens_def maxGoroutines_def wrap64_def sampleText_def

lemma sample_before_write:
  "\<exists>s. run sampleEncode sampleFs sampleCandidates (dispatchBoth @ secondPasses) initState
          = Some s \<and>
       totalTokens s = 0 \<and> collectedContent s = [] \<and> mu s = Some (Worker 1) \<and>
       workerPc s 0 = WProcess \<and> workerPc s 1 = WWrite \<and> nextFile s = 2"
  by (simp add: sample_eval sampleCandidates_def)

lemma sample_final:
  "\<exists>s. run sampleEncode sampleFs sampleCandidates
          (dispatchBoth @ secondPasses @ finishBoth) initState = Some s \<and>
       totalTokens s = 30000 \<and> mainPc s = MDone \<and> merged s = [1] \<and>
       collectedContent s = sampleText"
  by (simp add: sample_eval sampleCandidates_def)

theorem budget_never_exceeded_witness:
  "\<exists>s. run sampleEncode sampleFs sampleCandidates
          (dispatchBoth @ secondPasses @ finishBoth) initState = Some s \<and>
       mainPc s = MDone \<and> totalTokens s = 30000 \<and> totalTokens s \<le> maxTotalTokens"
proof -
  from sample_final obtain s where
    r: "run sampleEncode sampleFs sampleCandidates
          (dispatchBoth @ secondPasses @ finishBoth) initState = Some s"
    and f: "totalTokens s = 30000" "mainPc s = MDone"
    by blast
  from budget_never_exceeded [OF r] r f show ?thesis by blast
qed

theorem bounded_overshoot_witness:
  "\<exists>s1 s2. run sampleEncode sampleFs sampleCandidates (dispatchBoth @ secondPasses) initState
            = Some s1 \<and>
     run sampleEncode sampleFs sampleCandidates finishBoth s1 = Some s2 \<and>
     mainPc s2 = MDone \<and> totalTokens s2 = 30000 \<and>
     maxInFlight sampleEncode sampleFs sampleCandidates s1 = 30000 \<and>
     totalTokens s2
       \<le> maxTotalTokens + maxInFlight sampleEncode sampleFs sampleCandidates s1"
proof -
  from sample_before_write obtain s1 where
    r1: "run sampleEncode sampleFs sampleCandidates (dispatchBoth @ secondPasses) initState
          = Some s1"
    and f1: "workerPc s1 0 = WProcess" "workerPc s1 1 = WWrite" "nextFile s1 = 2"
    by blast
  from sample_final obtain s2 where
    r: "run sampleEncode sampleFs sampleCandidates
          ((dispatchBoth @ secondPasses) @ finishBoth) initState = Some s2"
    and f2: "totalTokens s2 = 30000" "mainPc s2 = MDone"
    by auto
  from r r1 have r2: "run sampleEncode sampleFs sampleCandidates finishBoth s1 = Some s2"
    using run_append [of sampleEncode sampleFs sampleCandidates
        "dispatchBoth @ secondPasses" finishBoth initState]
    by simp
  have "[0..<nextFile s1] = [0, 1]"
    using f1(3) by (simp add: upt_rec)
  then have m: "maxInFlight sampleEncode sampleFs sampleCandidates s1 = 30000"
    using f1 by (simp add: maxInFlight_def inFlight_def sample_processed tokenCountOf_def)
  from bounded_overshoot [OF r1 r2 f2(2)] r1 r2 f2 m show ?thesis by blast
qed

lemma run_snoc:
  "run encode fs candidates sched s = Some s1 \<Longrightarrow> step encode fs candidates a s1 = Some s2 \<Longrightarrow>
     run encode fs candidates (sched @ [a]) s = Some s2"
  by (simp add: run_append)

theorem budget_merge_atomic_witness:
  "\<exists>s0 s1 s2 s3.
     tokensFit sampleEncode sampleFs sampleCandidates \<and>
     run sampleEncode sampleFs sampleCandidates (dispatchBoth @ secondPasses) initState
       = Some s0 \<and>
     step sampleEncode sampleFs sampleCandidates (WorkerStep 1) s0 = Some s1 \<and>
     step sampleEncode sampleFs sampleCandidates (WorkerStep 1) s1 = Some s2 \<and>
     step sampleEncode sampleFs sampleCandidates (WorkerStep 0) s1 = Some s3 \<and>
     collectedContent s0 = [] \<and> collectedContent s1 = sampleText \<and>
     totalTokens s0 = 0 \<and> totalTokens s1 = 0 \<and> totalTokens s2 = 30000 \<and>
     mu s1 = Some (Worker 1) \<and> workerPc s1 0 = WProcess \<and> workerPc s3 0 = WLock \<and>
     totalTokens s3 = totalTokens s1 \<and> collectedContent s3 = collectedContent s1 \<and>
     mu s3 = mu s1 \<and> workerPc s3 1 = workerPc s1 1"
proof -
  let ?run = "run sampleEncode sampleFs sampleCandidates"
  let ?step = "step sampleEncode sampleFs sampleCandidates"
  from sample_before_write obtain s0 where
    r0: "?run (dispatchBoth @ secondPasses) initState = Some s0"
    and f0: "totalTokens s0 = 0" "collectedContent s0 = []" "mu s0 = Some (Worker 1)"
      "workerPc s0 0 = WProcess" "workerPc s0 1 = WWrite"
    by blast
  define s1 where "s1 = setPc 1 WAdd (s0\<lparr>collectedContent := sampleText, merged := merged s0 @ [1]\<rparr>)"
  define s2 where "s2 = setPc 1 WUnlock (s1\<lparr>totalTokens := 30000\<rparr>)"
  define s3 where "s3 = setPc 0 WLock s1"
  have f1: "totalTokens s1 = 0" "collectedContent s1 = sampleText" "mu s1 = Some (Worker 1)"
    "workerPc s1 0 = WProcess" "workerPc s1 1 = WAdd"
    using f0 by (simp_all add: s1_def setPc_def)
  have st1: "?step (WorkerStep 1) s0 = Some s1"
    using f0 by (simp add: workerStep_def s1_def sample_processed contentOf_def
        sampleCandidates_def sampleText_def)
  have st2: "?step (WorkerStep 1) s1 = Some s2"
    using f1 by (simp add: workerStep_def s2_def sample_processed tokenCountOf_def wrap64_def)
  have st3: "?step (WorkerStep 0) s1 = Some s3"
    using f1 by (simp add: workerStep_def s3_def sample_processed)
  have f2: "totalTokens s2 = 30000"
    by (simp add: s2_def setPc_def)
  have f3: "workerPc s3 0 = WLock"
    by (simp add: s3_def setPc_def)
  have r1: "?run ((dispatchBoth @ secondPasses) @ [WorkerStep 1]) initState = Some s1"
    using r0 st1 by (rule run_snoc)
  note fit = sample_tokensFit
  from budget_merge_atomic [OF fit r0 st1] budget_merge_atomic [OF fit r1 st2]
    budget_merge_atomic [OF fit r1 st3] f1(3)
  have "totalTokens s3 = totalTokens s1 \<and> collectedContent s3 = collectedContent s1 \<and>
     mu s3 = mu s1 \<and> workerPc s3 1 = workerPc s1 1"
    by auto
  with fit r0 st1 st2 st3 f0 f1 f2 f3 show ?thesis by blast
qed

section \<open>The wait group, the semaphore and the counter\<close>

lemma card_fun_upd:
  assumes fin: "finite {j. P (f j)}"
  shows "card {j. P ((f(i := v)) j)}
     = card {j. P (f j)} - (if P (f i) then 1 else 0) + (if P v then 1 else 0)"
proof (cases "P v")
  case True
  have "{j. P ((f(i := v)) j)} = insert i {j. P (f j)}"
    using True by auto
  then have c: "card {j. P ((f(i := v)) j)} = card (insert i {j. P (f j)})"
    by (rule arg_cong)
  show ?thesis
  proof (cases "P (f i)")
    case pi: True
    then have "i \<in> {j. P (f j)}" by simp
    then have "0 < card {j. P (f j)}" and "insert i {j. P (f j)} = {j. P (f j)}"
      using fin by (auto simp: card_gt_0_iff)
    with c True pi show ?thesis by simp
  next
    case pi: False
    then have "i \<notin> {j. P (f j)}" by simp
    with fin have "card (insert i {j. P (f j)}) = Suc (card {j. P (f j)})"
      by (rule card_insert_disjoint)
    with c True pi show ?thesis by simp
  qed
next
  case False
  have "{j. P ((f(i := v)) j)} = {j. P (f j)} - {i}"
    using False by auto
  then have c: "card {j. P ((f(i := v)) j)} = card ({j. P (f j)} - {i})"
    by (rule arg_cong)
  show ?thesis
  proof (cases "P (f i)")
    case pi: True
    then have "i \<in> {j. P (f j)}" by simp
    then have "card ({j. P (f j)} - {i}) = card {j. P (f j)} - 1"
      by (rule card_Diff_singleton)
    with c False pi show ?thesis by simp
  next
    case pi: False
    then have "{j. P (f j)} - {i} = {j. P (f j)}" by auto
    with c False pi show ?thesis by simp
  qed
qed

lemma started_finite:
  assumes "spawnInv candidates s" and "\<And>pc. P pc \<Longrightarrow> pc \<noteq> WIdle"
  shows "finite {i. P (workerPc s i)}"
proof -
  have "{i. P (workerPc s i)} \<subseteq> {..<nextFile s}"
    using assms by (auto simp: spawnInv_def)
  then show ?thesis by (rule finite_subset) simp
qed

lemma countPc_upd:
  "finite {j. P (f j)} \<Longrightarrow>
     countPc P (f(i := v)) = countPc P f - (if P (f i) then 1 else 0) + (if P v then 1 else 0)"
  unfolding countPc_def by (rule card_fun_upd)

lemma countPc_pos: "finite {j. P (f j)} \<Longrightarrow> P (f i) \<Longrightarrow> 0 < countPc P f"
  unfolding countPc_def by (auto simp: card_gt_0_iff)

lemma countPc_zero: "finite {j. P (f j)} \<Longrightarrow> countPc P f = 0 \<Longrightarrow> \<not> P (f i)"
  using countPc_pos [of P f i] by auto

lemma joinInv_main:
  assumes "joinInv s" and "spawnInv candidates s" and "mainStep candidates s = Some s'"
  shows "joinInv s'"
proof -
  have fs: "finite {i. holdsSlot (workerPc s i)}"
    using assms(2) by (rule started_finite) (simp add: holdsSlot_def)
  have fu: "finite {i. unfinished (workerPc s i)}"
    using assms(2) by (rule started_finite) (simp add: unfinished_def)
  have I: "workerPc s (nextFile s) = WIdle"
    using assms(2) by (auto simp: spawnInv_def)
  note upd = countPc_upd [of holdsSlot "workerPc s", OF fs]
    countPc_upd [of unfinished "workerPc s", OF fu]
  show ?thesis
    using assms(1,3) I
    by (auto simp: joinInv_def mainStep_def upd holdsSlot_def unfinished_def
        split: main_pc.splits if_splits)
qed

lemma joinInv_worker:
  assumes "joinInv s" and "spawnInv candidates s"
    and "workerStep encode fs candidates i s = Some s'"
  shows "joinInv s'"
proof -
  have fs: "finite {i. holdsSlot (workerPc s i)}"
    using assms(2) by (rule started_finite) (simp add: holdsSlot_def)
  have fu: "finite {i. unfinished (workerPc s i)}"
    using assms(2) by (rule started_finite) (simp add: unfinished_def)
  note upd = countPc_upd [of holdsSlot "workerPc s", OF fs]
    countPc_upd [of unfinished "workerPc s", OF fu]
  have live: "mainPc s \<noteq> MDone"
  proof
    assume "mainPc s = MDone"
    with assms(1) have "countPc unfinished (workerPc s) = 0" by (simp add: joinInv_def)
    with fu have "\<not> unfinished (workerPc s i)" by (rule countPc_zero)
    with assms(3) show False
      by (auto simp: workerStep_def unfinished_def Let_def split: worker_pc.splits)
  qed
  have pu: "unfinished (workerPc s i) \<longrightarrow> 0 < countPc unfinished (workerPc s)"
    using fu by (auto intro: countPc_pos)
  have ps: "holdsSlot (workerPc s i) \<longrightarrow> 0 < countPc holdsSlot (workerPc s)"
    using fs by (auto intro: countPc_pos)
  show ?thesis
    using assms(1,3) live pu ps
    by (auto simp: joinInv_def workerStep_def setPc_def Let_def upd holdsSlot_def
        unfinished_def split: worker_pc.splits if_splits sum.splits)
qed

lemma joinInv_step:
  assumes "inv encode fs candidates s" and "joinInv s"
    and "step encode fs candidates a s = Some s'"
  shows "joinInv s'"
  using assms by (cases a) (auto simp: inv_def intro: joinInv_main joinInv_worker)

lemma joinInv_init: "joinInv initState"
  by (simp add: joinInv_def initState_def countPc_def holdsSlot_def unfinished_def)

lemma pendingAdd_cong:
  "mu s' = mu s \<Longrightarrow> (\<And>k. mu s = Some (Worker k) \<Longrightarrow> workerPc s' k = workerPc s k) \<Longrightarrow>
     pendingAdd encode fs candidates s' = pendingAdd encode fs candidates s"
  by (auto simp: pendingAdd_def split: option.splits tid.splits)

lemma sumInv_step:
  assumes fit: "tokensFit encode fs candidates"
    and iv: "inv encode fs candidates s"
    and si: "sumInv encode fs candidates s"
    and st: "step encode fs candidates a s = Some s'"
  shows "sumInv encode fs candidates s'"
proof -
  from si have nn: "0 \<le> totalTokens s"
    and sm: "mergedTokens encode fs candidates s
        = totalTokens s + pendingAdd encode fs candidates s"
    by (simp_all add: sumInv_def)
  from iv have li: "lockInv s" and sp: "spawnInv candidates s" by (simp_all add: inv_def)
  have L: "holdsLock (workerPc s k) = (mu s = Some (Worker k))" for k
    using li by (simp add: lockInv_def)
  have nn': "0 \<le> totalTokens s'"
    using step_nonneg [OF fit iv nn st] nn by simp
  have "mergedTokens encode fs candidates s'
        = totalTokens s' + pendingAdd encode fs candidates s'"
  proof (cases a)
    case MainStep
    have I: "workerPc s (nextFile s) = WIdle"
      using sp by (auto simp: spawnInv_def)
    have nm: "mu s \<noteq> Some (Worker (nextFile s))"
      using L [of "nextFile s"] I by (simp add: holdsLock_def)
    from st MainStep have e: "merged s' = merged s" "totalTokens s' = totalTokens s"
      by (auto simp: mainStep_def split: main_pc.splits if_splits)
    have "pendingAdd encode fs candidates s' = pendingAdd encode fs candidates s"
    proof (cases "mainPc s")
      case MLock
      with st MainStep have "(mu s = None \<and> mu s' = Some Main) \<or>
          (mu s' = mu s \<and> workerPc s' = workerPc s)"
        by (auto simp: mainStep_def split: if_splits)
      then show ?thesis
      proof
        assume "mu s = None \<and> mu s' = Some Main"
        then show ?thesis by (simp add: pendingAdd_def)
      next
        assume "mu s' = mu s \<and> workerPc s' = workerPc s"
        then show ?thesis by (intro pendingAdd_cong) simp_all
      qed
    next
      case MCheck
      with li have "mu s = Some Main" by (simp add: lockInv_def)
      moreover from st MainStep MCheck have "mu s' = None"
        by (auto simp: mainStep_def split: if_splits)
      ultimately show ?thesis by (simp add: pendingAdd_def)
    next
      case MAdd
      with st MainStep have "mu s' = mu s \<and> workerPc s' = workerPc s"
        by (auto simp: mainStep_def)
      then show ?thesis by (intro pendingAdd_cong) simp_all
    next
      case MSend
      with st MainStep have "mu s' = mu s"
        "\<And>k. k \<noteq> nextFile s \<Longrightarrow> workerPc s' k = workerPc s k"
        by (auto simp: mainStep_def split: if_splits)
      with nm show ?thesis
        by (intro pendingAdd_cong) auto
    next
      case MWait
      with st MainStep have "mu s' = mu s \<and> workerPc s' = workerPc s"
        by (auto simp: mainStep_def split: if_splits)
      then show ?thesis by (intro pendingAdd_cong) simp_all
    next
      case MDone
      with st MainStep show ?thesis by (simp add: mainStep_def)
    qed
    with sm e show ?thesis by (simp add: mergedTokens_def)
  next
    case (WorkerStep i)
    show ?thesis
    proof (cases "workerPc s i")
      case WIdle
      with st WorkerStep show ?thesis by (simp add: workerStep_def)
    next
      case WProcess
      then have nm: "mu s \<noteq> Some (Worker i)" using L [of i] by (simp add: holdsLock_def)
      from st WorkerStep WProcess have
        e: "merged s' = merged s" "mu s' = mu s" "totalTokens s' = totalTokens s"
          "\<And>k. k \<noteq> i \<Longrightarrow> workerPc s' k = workerPc s k"
        by (auto simp: workerStep_def setPc_def Let_def split: sum.splits)
      have "pendingAdd encode fs candidates s' = pendingAdd encode fs candidates s"
        using nm e by (intro pendingAdd_cong) auto
      with sm e show ?thesis by (simp add: mergedTokens_def)
    next
      case WLock
      from st WorkerStep WLock have
        e: "merged s' = merged s" "mu s = None" "mu s' = Some (Worker i)"
          "totalTokens s' = totalTokens s" "workerPc s' i = WCheck"
        by (auto simp: workerStep_def setPc_def Let_def split: if_splits)
      have "pendingAdd encode fs candidates s' = 0" "pendingAdd encode fs candidates s = 0"
        using e by (simp_all add: pendingAdd_def)
      with sm e show ?thesis by (simp add: mergedTokens_def)
    next
      case WCheck
      then have m: "mu s = Some (Worker i)" using L [of i] by (simp add: holdsLock_def)
      from st WorkerStep WCheck have
        e: "merged s' = merged s" "mu s' = mu s" "totalTokens s' = totalTokens s"
          "workerPc s' i \<noteq> WAdd"
        by (auto simp: workerStep_def setPc_def Let_def split: if_splits)
      have "pendingAdd encode fs candidates s' = 0" "pendingAdd encode fs candidates s = 0"
        using e m WCheck by (simp_all add: pendingAdd_def)
      with sm e show ?thesis by (simp add: mergedTokens_def)
    next
      case WWrite
      then have m: "mu s = Some (Worker i)" using L [of i] by (simp add: holdsLock_def)
      from st WorkerStep WWrite have
        e: "merged s' = merged s @ [i]" "mu s' = mu s" "totalTokens s' = totalTokens s"
          "workerPc s' i = WAdd"
        by (auto simp: workerStep_def setPc_def Let_def)
      have "pendingAdd encode fs candidates s'
          = tokenCountOf (processed encode fs candidates i)"
        "pendingAdd encode fs candidates s = 0"
        using e m WWrite by (simp_all add: pendingAdd_def)
      with sm e show ?thesis by (simp add: mergedTokens_def)
    next
      case WAdd
      from sp WAdd have "i < length candidates" by (auto intro: worker_bound)
      with fit have c: "tokenCountOf (processed encode fs candidates i)
          \<le> 2 ^ 63 - 1 - maxTotalTokens"
        by (rule tokensFit_nth)
      from iv have "totalTokens s \<le> maxTotalTokens" by (simp add: inv_def budgetInv_def)
      with nn have "wrap64 (totalTokens s + tokenCountOf (processed encode fs candidates i))
          = totalTokens s + tokenCountOf (processed encode fs candidates i)"
        using tokenCountOf_nonneg c by (rule wrap64_sum)
      with st WorkerStep WAdd
      have t: "totalTokens s' = totalTokens s + tokenCountOf (processed encode fs candidates i)"
        by (auto simp: workerStep_def setPc_def Let_def)
      have m: "mu s = Some (Worker i)"
        using L [of i] WAdd by (simp add: holdsLock_def)
      from st WorkerStep WAdd have e: "merged s' = merged s" "mu s' = mu s"
        "workerPc s' i = WUnlock"
        by (auto simp: workerStep_def setPc_def Let_def)
      have "pendingAdd encode fs candidates s' = 0"
        "pendingAdd encode fs candidates s = tokenCountOf (processed encode fs candidates i)"
        using e m WAdd by (simp_all add: pendingAdd_def)
      with sm e t show ?thesis by (simp add: mergedTokens_def)
    next
      case WUnlock
      then have m: "mu s = Some (Worker i)" using L [of i] by (simp add: holdsLock_def)
      from st WorkerStep WUnlock have
        e: "merged s' = merged s" "mu s' = None" "totalTokens s' = totalTokens s"
        by (auto simp: workerStep_def setPc_def Let_def)
      have "pendingAdd encode fs candidates s' = 0" "pendingAdd encode fs candidates s = 0"
        using e m WUnlock by (simp_all add: pendingAdd_def)
      with sm e show ?thesis by (simp add: mergedTokens_def)
    next
      case WRelease
      then have nm: "mu s \<noteq> Some (Worker i)" using L [of i] by (simp add: holdsLock_def)
      from st WorkerStep WRelease have
        e: "merged s' = merged s" "mu s' = mu s" "totalTokens s' = totalTokens s"
          "\<And>k. k \<noteq> i \<Longrightarrow> workerPc s' k = workerPc s k"
        by (auto simp: workerStep_def setPc_def Let_def split: if_splits)
      have "pendingAdd encode fs candidates s' = pendingAdd encode fs candidates s"
        using nm e by (intro pendingAdd_cong) auto
      with sm e show ?thesis by (simp add: mergedTokens_def)
    next
      case WDone
      then have nm: "mu s \<noteq> Some (Worker i)" using L [of i] by (simp add: holdsLock_def)
      from st WorkerStep WDone have
        e: "merged s' = merged s" "mu s' = mu s" "totalTokens s' = totalTokens s"
          "\<And>k. k \<noteq> i \<Longrightarrow> workerPc s' k = workerPc s k"
        by (auto simp: workerStep_def setPc_def Let_def split: if_splits)
      have "pendingAdd encode fs candidates s' = pendingAdd encode fs candidates s"
        using nm e by (intro pendingAdd_cong) auto
      with sm e show ?thesis by (simp add: mergedTokens_def)
    next
      case WExited
      with st WorkerStep show ?thesis by (simp add: workerStep_def)
    qed
  qed
  with nn' show ?thesis by (simp add: sumInv_def)
qed

lemma joinInv_run:
  "inv encode fs candidates s \<Longrightarrow> joinInv s \<Longrightarrow>
   run encode fs candidates sched s = Some s' \<Longrightarrow> joinInv s'"
proof (induction sched arbitrary: s)
  case Nil
  then show ?case by simp
next
  case (Cons a sched)
  from Cons.prems(3) obtain s1 where
    st: "step encode fs candidates a s = Some s1" and
    rn: "run encode fs candidates sched s1 = Some s'"
    by (auto split: option.splits)
  have "inv encode fs candidates s1" using Cons.prems(1) st by (rule inv_step)
  moreover have "joinInv s1" using Cons.prems(1,2) st by (rule joinInv_step)
  ultimately show ?case using rn by (rule Cons.IH)
qed

lemma sumInv_run:
  "tokensFit encode fs candidates \<Longrightarrow> inv encode fs candidates s \<Longrightarrow>
   sumInv encode fs candidates s \<Longrightarrow> run encode fs candidates sched s = Some s' \<Longrightarrow>
   sumInv encode fs candidates s'"
proof (induction sched arbitrary: s)
  case Nil
  then show ?case by simp
next
  case (Cons a sched)
  from Cons.prems(4) obtain s1 where
    st: "step encode fs candidates a s = Some s1" and
    rn: "run encode fs candidates sched s1 = Some s'"
    by (auto split: option.splits)
  have "inv encode fs candidates s1" using Cons.prems(2) st by (rule inv_step)
  moreover have "sumInv encode fs candidates s1"
    using Cons.prems(1-3) st by (rule sumInv_step)
  ultimately show ?case using rn by (rule Cons.IH [OF Cons.prems(1)])
qed

text \<open>
  The wait group and the semaphore do their work: at most \<open>maxGoroutines\<close> workers hold
  a slot of the semaphore, the deferred receive from \<open>sem\<close> never blocks, \<open>wg.Done()\<close>
  never panics, and when \<open>wg.Wait()\<close> has returned every worker started has returned
  and the mutex is free.
\<close>

lemma workers_joined:
  assumes rn: "run encode fs candidates sched initState = Some s"
  shows "sem s \<le> maxGoroutines"
    and "workerPc s i = WRelease \<Longrightarrow> 0 < sem s"
    and "workerPc s i = WDone \<Longrightarrow> 0 < wg s"
    and "mainPc s = MDone \<Longrightarrow> \<not> inFlight s i"
    and "mainPc s = MDone \<Longrightarrow> mu s = None"
proof -
  from rn have iv: "inv encode fs candidates s" by (rule inv_reachable)
  have ji: "joinInv s"
    using inv_init joinInv_init rn by (rule joinInv_run)
  from iv have sp: "spawnInv candidates s" and li: "lockInv s" by (simp_all add: inv_def)
  have fs: "finite {i. holdsSlot (workerPc s i)}"
    using sp by (rule started_finite) (simp add: holdsSlot_def)
  have fu: "finite {i. unfinished (workerPc s i)}"
    using sp by (rule started_finite) (simp add: unfinished_def)
  show "sem s \<le> maxGoroutines" using ji by (simp add: joinInv_def)
  show "0 < sem s" if "workerPc s i = WRelease"
  proof -
    from that have "holdsSlot (workerPc s i)" by (simp add: holdsSlot_def)
    with fs have "0 < countPc holdsSlot (workerPc s)" by (rule countPc_pos)
    with ji show ?thesis by (simp add: joinInv_def)
  qed
  show "0 < wg s" if "workerPc s i = WDone"
  proof -
    from that have "unfinished (workerPc s i)" by (simp add: unfinished_def)
    with fu have "0 < countPc unfinished (workerPc s)" by (rule countPc_pos)
    with ji show ?thesis by (simp add: joinInv_def)
  qed
  have none: "\<not> unfinished (workerPc s k)" if "mainPc s = MDone" for k
  proof -
    from ji that have "countPc unfinished (workerPc s) = 0" by (simp add: joinInv_def)
    with fu show ?thesis by (rule countPc_zero)
  qed
  show "\<not> inFlight s i" if "mainPc s = MDone"
    using none [OF that, of i] by (simp add: inFlight_def unfinished_def)
  show "mu s = None" if d: "mainPc s = MDone"
  proof (cases "mu s")
    case None
    then show ?thesis .
  next
    case (Some t)
    show ?thesis
    proof (cases t)
      case Main
      with Some li d show ?thesis by (simp add: lockInv_def)
    next
      case (Worker k)
      with Some li have "holdsLock (workerPc s k)" by (simp add: lockInv_def)
      with none [OF d, of k] show ?thesis by (auto simp: holdsLock_def unfinished_def)
    qed
  qed
qed

text \<open>
  The counter accounts for the candidates merged: their token counts add up to at most
  the limit, and to the value of \<open>totalTokens\<close> whenever the mutex is free, as it is
  when the run ends.
\<close>

lemma counter_is_merged_tokens:
  assumes fit: "tokensFit encode fs candidates"
    and rn: "run encode fs candidates sched initState = Some s"
  shows "mergedTokens encode fs candidates s \<le> maxTotalTokens"
    and "mu s = None \<Longrightarrow> totalTokens s = mergedTokens encode fs candidates s"
proof -
  from rn have iv: "inv encode fs candidates s" by (rule inv_reachable)
  have "sumInv encode fs candidates initState"
    by (simp add: sumInv_def initState_def mergedTokens_def pendingAdd_def)
  with fit inv_init have si: "sumInv encode fs candidates s"
    using rn by (rule sumInv_run)
  then have nn: "0 \<le> totalTokens s"
    and sm: "mergedTokens encode fs candidates s
        = totalTokens s + pendingAdd encode fs candidates s"
    by (simp_all add: sumInv_def)
  show "totalTokens s = mergedTokens encode fs candidates s" if "mu s = None"
    using sm that by (simp add: pendingAdd_def)
  show "mergedTokens encode fs candidates s \<le> maxTotalTokens"
  proof (cases "\<exists>i. mu s = Some (Worker i) \<and> workerPc s i = WAdd")
    case True
    then obtain i where i: "mu s = Some (Worker i)" "workerPc s i = WAdd" by blast
    then have "pendingAdd encode fs candidates s
        = tokenCountOf (processed encode fs candidates i)"
      by (simp add: pendingAdd_def)
    moreover have "totalTokens s + tokenCountOf (processed encode fs candidates i)
        \<le> maxTotalTokens"
      using fit iv nn i(2) by (intro passed_fits) (simp_all add: passedTest_def)
    ultimately show ?thesis using sm by simp
  next
    case False
    then have "pendingAdd encode fs candidates s = 0"
      by (auto simp: pendingAdd_def split: option.splits tid.splits)
    with sm iv show ?thesis by (simp add: inv_def budgetInv_def)
  qed
qed

section \<open>The content and the accepted candidates\<close>

lemma awaitingWrite_cong:
  "mu s' = mu s \<Longrightarrow> (\<And>k. mu s = Some (Worker k) \<Longrightarrow> workerPc s' k = workerPc s k) \<Longrightarrow>
     awaitingWrite s' = awaitingWrite s"
  by (auto simp: awaitingWrite_def split: option.splits tid.splits)

lemma step_accepts:
  assumes iv: "inv encode fs candidates s"
    and st: "step encode fs candidates a s = Some s'"
  shows "merged s' @ awaitingWrite s'
     = merged s @ awaitingWrite s @ acceptsAt encode fs candidates a s"
proof -
  from iv have li: "lockInv s" and sp: "spawnInv candidates s" by (simp_all add: inv_def)
  have L: "holdsLock (workerPc s k) = (mu s = Some (Worker k))" for k
    using li by (simp add: lockInv_def)
  show ?thesis
  proof (cases a)
    case MainStep
    have I: "workerPc s (nextFile s) = WIdle"
      using sp by (auto simp: spawnInv_def)
    have nm: "mu s \<noteq> Some (Worker (nextFile s))"
      using L [of "nextFile s"] I by (simp add: holdsLock_def)
    from st MainStep have e: "merged s' = merged s"
      by (auto simp: mainStep_def split: main_pc.splits if_splits)
    have "awaitingWrite s' = awaitingWrite s"
    proof (cases "mainPc s")
      case MLock
      with st MainStep have "(mu s = None \<and> mu s' = Some Main) \<or>
          (mu s' = mu s \<and> workerPc s' = workerPc s)"
        by (auto simp: mainStep_def split: if_splits)
      then show ?thesis
      proof
        assume "mu s = None \<and> mu s' = Some Main"
        then show ?thesis by (simp add: awaitingWrite_def)
      next
        assume "mu s' = mu s \<and> workerPc s' = workerPc s"
        then show ?thesis by (intro awaitingWrite_cong) simp_all
      qed
    next
      case MCheck
      with li have "mu s = Some Main" by (simp add: lockInv_def)
      moreover from st MainStep MCheck have "mu s' = None"
        by (auto simp: mainStep_def split: if_splits)
      ultimately show ?thesis by (simp add: awaitingWrite_def)
    next
      case MAdd
      with st MainStep have "mu s' = mu s \<and> workerPc s' = workerPc s"
        by (auto simp: mainStep_def)
      then show ?thesis by (intro awaitingWrite_cong) simp_all
    next
      case MSend
      with st MainStep have "mu s' = mu s"
        "\<And>k. k \<noteq> nextFile s \<Longrightarrow> workerPc s' k = workerPc s k"
        by (auto simp: mainStep_def split: if_splits)
      with nm show ?thesis
        by (intro awaitingWrite_cong) auto
    next
      case MWait
      with st MainStep have "mu s' = mu s \<and> workerPc s' = workerPc s"
        by (auto simp: mainStep_def split: if_splits)
      then show ?thesis by (intro awaitingWrite_cong) simp_all
    next
      case MDone
      with st MainStep show ?thesis by (simp add: mainStep_def)
    qed
    with e MainStep show ?thesis by (simp add: acceptsAt_def)
  next
    case (WorkerStep i)
    show ?thesis
    proof (cases "workerPc s i")
      case WIdle
      with st WorkerStep show ?thesis by (simp add: workerStep_def)
    next
      case WProcess
      then have nm: "mu s \<noteq> Some (Worker i)" using L [of i] by (simp add: holdsLock_def)
      from st WorkerStep WProcess have
        e: "merged s' = merged s" "mu s' = mu s"
          "\<And>k. k \<noteq> i \<Longrightarrow> workerPc s' k = workerPc s k"
        by (auto simp: workerStep_def setPc_def Let_def split: sum.splits)
      have "awaitingWrite s' = awaitingWrite s"
        using nm e by (intro awaitingWrite_cong) auto
      with e WorkerStep WProcess show ?thesis by (simp add: acceptsAt_def)
    next
      case WLock
      from st WorkerStep WLock have
        e: "merged s' = merged s" "mu s = None" "mu s' = Some (Worker i)"
          "workerPc s' i = WCheck"
        by (auto simp: workerStep_def setPc_def Let_def split: if_splits)
      have "awaitingWrite s' = []" "awaitingWrite s = []"
        using e by (simp_all add: awaitingWrite_def)
      with e WorkerStep WLock show ?thesis by (simp add: acceptsAt_def)
    next
      case WCheck
      then have m: "mu s = Some (Worker i)" using L [of i] by (simp add: holdsLock_def)
      have a0: "awaitingWrite s = []"
        using m WCheck by (simp add: awaitingWrite_def)
      show ?thesis
      proof (cases "wrap64 (totalTokens s + tokenCountOf (processed encode fs candidates i))
          \<le> maxTotalTokens")
        case True
        with st WorkerStep WCheck have
          e: "merged s' = merged s" "mu s' = mu s" "workerPc s' i = WWrite"
          by (auto simp: workerStep_def setPc_def Let_def)
        have "awaitingWrite s' = [i]"
          using e m by (simp add: awaitingWrite_def)
        with e a0 WorkerStep WCheck True show ?thesis by (simp add: acceptsAt_def)
      next
        case False
        with st WorkerStep WCheck have
          e: "merged s' = merged s" "mu s' = mu s" "workerPc s' i = WUnlock"
          by (auto simp: workerStep_def setPc_def Let_def)
        have "awaitingWrite s' = []"
          using e m by (simp add: awaitingWrite_def)
        with e a0 WorkerStep WCheck False show ?thesis by (simp add: acceptsAt_def)
      qed
    next
      case WWrite
      then have m: "mu s = Some (Worker i)" using L [of i] by (simp add: holdsLock_def)
      from st WorkerStep WWrite have
        e: "merged s' = merged s @ [i]" "mu s' = mu s" "workerPc s' i = WAdd"
        by (auto simp: workerStep_def setPc_def Let_def)
      have "awaitingWrite s' = []" "awaitingWrite s = [i]"
        using e m WWrite by (simp_all add: awaitingWrite_def)
      with e WorkerStep WWrite show ?thesis by (simp add: acceptsAt_def)
    next
      case WAdd
      then have m: "mu s = Some (Worker i)" using L [of i] by (simp add: holdsLock_def)
      from st WorkerStep WAdd have e: "merged s' = merged s" "mu s' = mu s"
        "workerPc s' i = WUnlock"
        by (auto simp: workerStep_def setPc_def Let_def)
      have "awaitingWrite s' = []" "awaitingWrite s = []"
        using e m WAdd by (simp_all add: awaitingWrite_def)
      with e WorkerStep WAdd show ?thesis by (simp add: acceptsAt_def)
    next
      case WUnlock
      then have m: "mu s = Some (Worker i)" using L [of i] by (simp add: holdsLock_def)
      from st WorkerStep WUnlock have
        e: "merged s' = merged s" "mu s' = None"
        by (auto simp: workerStep_def setPc_def Let_def)
      have "awaitingWrite s' = []" "awaitingWrite s = []"
        using e m WUnlock by (simp_all add: awaitingWrite_def)
      with e WorkerStep WUnlock show ?thesis by (simp add: acceptsAt_def)
    next
      case WRelease
      then have nm: "mu s \<noteq> Some (Worker i)" using L [of i] by (simp add: holdsLock_def)
      from st WorkerStep WRelease have
        e: "merged s' = merged s" "mu s' = mu s"
          "\<And>k. k \<noteq> i \<Longrightarrow> workerPc s' k = workerPc s k"
        by (auto simp: workerStep_def setPc_def Let_def split: if_splits)
      have "awaitingWrite s' = awaitingWrite s"
        using nm e by (intro awaitingWrite_cong) auto
      with e WorkerStep WRelease show ?thesis by (simp add: acceptsAt_def)
    next
      case WDone
      then have nm: "mu s \<noteq> Some (Worker i)" using L [of i] by (simp add: holdsLock_def)
      from st WorkerStep WDone have
        e: "merged s' = merged s" "mu s' = mu s"
          "\<And>k. k \<noteq> i \<Longrightarrow> workerPc s' k = workerPc s k"
        by (auto simp: workerStep_def setPc_def Let_def split: if_splits)
      have "awaitingWrite s' = awaitingWrite s"
        using nm e by (intro awaitingWrite_cong) auto
      with e WorkerStep WDone show ?thesis by (simp add: acceptsAt_def)
    next
      case WExited
      with st WorkerStep show ?thesis by (simp add: workerStep_def)
    qed
  qed
qed

lemma run_accepts:
  "inv encode fs candidates s \<Longrightarrow> run encode fs candidates sched s = Some s' \<Longrightarrow>
     merged s' @ awaitingWrite s'
       = merged s @ awaitingWrite s @ accepted encode fs candidates sched s"
proof (induction sched arbitrary: s)
  case Nil
  then show ?case by simp
next
  case (Cons a sched)
  from Cons.prems(2) obtain s1 where
    st: "step encode fs candidates a s = Some s1" and
    rn: "run encode fs candidates sched s1 = Some s'"
    by (auto split: option.splits)
  have iv1: "inv encode fs candidates s1" using Cons.prems(1) st by (rule inv_step)
  from Cons.IH [OF iv1 rn] step_accepts [OF Cons.prems(1) st] st
  show ?case by simp
qed

lemma reachable_accepts:
  assumes "run encode fs candidates sched initState = Some s"
  shows "accepted encode fs candidates sched initState = merged s @ awaitingWrite s"
  using run_accepts [OF inv_init assms]
  by (simp add: initState_def awaitingWrite_def)

text \<open>
  Claim C10. For every schedule, the content is the concatenation of the whole formatted
  texts of the candidates that the budget test has accepted so far, in the order of
  their acceptance and with nothing in between, but for the text of the one worker that
  has been accepted and holds the mutex just before its \<open>WriteString\<close>. When
  \<open>wg.Wait()\<close> has returned, so for the string that \<open>collectFilesContent\<close> returns,
  the content is exactly the concatenation of the texts of the accepted candidates. No
  candidate is accepted twice, and every accepted candidate is one of the list whose
  \<open>processFile\<close> returned no error.
\<close>

theorem content_is_concatenation:
  "run encode fs candidates sched initState = Some s \<Longrightarrow>
     collectedContent s
         @ concat (map (\<lambda>i. contentOf (processed encode fs candidates i)) (awaitingWrite s))
       = concat (map (\<lambda>i. contentOf (processed encode fs candidates i))
           (accepted encode fs candidates sched initState)) \<and>
     (mainPc s = MDone \<longrightarrow>
        collectedContent s
          = concat (map (\<lambda>i. contentOf (processed encode fs candidates i))
              (accepted encode fs candidates sched initState))) \<and>
     distinct (accepted encode fs candidates sched initState) \<and>
     (\<forall>i \<in> set (accepted encode fs candidates sched initState).
        i < length candidates \<and> succeeded (processed encode fs candidates i))"
proof -
  assume rn: "run encode fs candidates sched initState = Some s"
  let ?text = "\<lambda>i. contentOf (processed encode fs candidates i)"
  let ?acc = "accepted encode fs candidates sched initState"
  from rn have iv: "inv encode fs candidates s" by (rule inv_reachable)
  then have ci: "contentInv encode fs candidates s" and sp: "spawnInv candidates s"
    and li: "lockInv s"
    by (simp_all add: inv_def)
  have acc: "?acc = merged s @ awaitingWrite s"
    using rn by (rule reachable_accepts)
  have c: "collectedContent s = concat (map ?text (merged s))"
    using ci by (simp add: contentInv_def)
  have a: "collectedContent s @ concat (map ?text (awaitingWrite s)) = concat (map ?text ?acc)"
    by (simp add: acc c)
  have aw: "workerPc s i = WWrite" if "i \<in> set (awaitingWrite s)" for i
    using that by (auto simp: awaitingWrite_def split: option.splits tid.splits if_splits)
  have d: "distinct ?acc"
  proof -
    have "distinct (merged s)" using ci by (simp add: contentInv_def)
    moreover have "distinct (awaitingWrite s)"
      by (auto simp: awaitingWrite_def split: option.splits tid.splits)
    moreover have "i \<notin> set (merged s)" if "i \<in> set (awaitingWrite s)" for i
    proof
      assume "i \<in> set (merged s)"
      with ci have "hasWritten (workerPc s i)"
        by (auto simp: contentInv_def list_all_iff mergedOk_def)
      with aw [OF that] show False by (simp add: hasWritten_def)
    qed
    ultimately show ?thesis by (auto simp: acc)
  qed
  have m: "i < length candidates \<and> succeeded (processed encode fs candidates i)"
    if "i \<in> set ?acc" for i
  proof (cases "i \<in> set (merged s)")
    case True
    with ci have mo: "mergedOk encode fs candidates s i"
      by (auto simp: contentInv_def list_all_iff)
    then have "workerPc s i \<noteq> WIdle" by (auto simp: mergedOk_def hasWritten_def)
    with sp have "i < length candidates" by (rule worker_bound)
    with mo show ?thesis by (simp add: mergedOk_def)
  next
    case False
    with that acc have "i \<in> set (awaitingWrite s)" by simp
    then have w: "workerPc s i = WWrite" by (rule aw)
    then have "workerPc s i \<noteq> WIdle" by simp
    with sp have "i < length candidates" by (rule worker_bound)
    moreover from ci w have "succeeded (processed encode fs candidates i)"
      by (simp add: contentInv_def awaitsMerge_def)
    ultimately show ?thesis by simp
  qed
  have f: "collectedContent s = concat (map ?text ?acc)" if "mainPc s = MDone"
  proof -
    from workers_joined(5) [OF rn that] have "awaitingWrite s = []"
      by (simp add: awaitingWrite_def)
    with a show ?thesis by simp
  qed
  from a f d m show ?thesis by blast
qed

lemma small_processFile:
  "snd (processFile smallEncode sampleFs p)
     = Inr (''File: '' @ p @ newline @ ''x'' @ newline @ newline, 10)"
  by (simp add: processFile_def isBinaryFile_def sampleFs_def sampleFile_def sampledPrefix_def
      scanLines_def newline_def NUL_def MaxScanTokenSize_def dropCR_def formatFile_def
      countTokens_def smallEncode_def Rel_def maxFileSize_def)

lemma small_processed:
  "processed smallEncode sampleFs cs i
     = Inr (''File: '' @ cs ! i @ newline @ ''x'' @ newline @ newline, 10)"
  by (simp add: processed_def small_processFile)

lemmas small_eval = dispatchBoth_def secondPasses_def finishAccepted_def
  mainStep_def workerStep_def setPc_def initState_def small_processed tokenCountOf_def
  contentOf_def maxTotalTokens_def maxGoroutines_def wrap64_def sampleText_def
  sampleTextA_def acceptsAt_def

lemma small_final:
  "\<exists>s. run smallEncode sampleFs sampleCandidates
          (dispatchBoth @ secondPasses @ finishAccepted) initState = Some s \<and>
       totalTokens s = 20 \<and> mainPc s = MDone \<and>
       collectedContent s = sampleText @ sampleTextA"
  by (simp add: small_eval sampleCandidates_def)

lemma small_accepted:
  "accepted smallEncode sampleFs sampleCandidates
     (dispatchBoth @ secondPasses @ finishAccepted) initState = [1, 0]"
  by (simp add: small_eval sampleCandidates_def)

lemma sample_accepted:
  "accepted sampleEncode sampleFs sampleCandidates
     (dispatchBoth @ secondPasses @ finishBoth) initState = [1]"
  by (simp add: dispatchBoth_def secondPasses_def finishBoth_def
      mainStep_def workerStep_def setPc_def initState_def sample_processed tokenCountOf_def
      contentOf_def maxTotalTokens_def maxGoroutines_def wrap64_def acceptsAt_def
      sampleCandidates_def)

theorem content_is_concatenation_witness:
  "\<exists>s t. run smallEncode sampleFs sampleCandidates
            (dispatchBoth @ secondPasses @ finishAccepted) initState = Some s \<and>
     mainPc s = MDone \<and>
     accepted smallEncode sampleFs sampleCandidates
       (dispatchBoth @ secondPasses @ finishAccepted) initState = [1, 0] \<and>
     collectedContent s = sampleText @ sampleTextA \<and>
     collectedContent s
       = concat (map (\<lambda>i. contentOf (processed smallEncode sampleFs sampleCandidates i))
           (accepted smallEncode sampleFs sampleCandidates
              (dispatchBoth @ secondPasses @ finishAccepted) initState)) \<and>
     run sampleEncode sampleFs sampleCandidates
       (dispatchBoth @ secondPasses @ finishBoth) initState = Some t \<and>
     mainPc t = MDone \<and>
     accepted sampleEncode sampleFs sampleCandidates
       (dispatchBoth @ secondPasses @ finishBoth) initState = [1] \<and>
     collectedContent t = sampleText \<and>
     collectedContent t
       = concat (map (\<lambda>i. contentOf (processed sampleEncode sampleFs sampleCandidates i))
           (accepted sampleEncode sampleFs sampleCandidates
              (dispatchBoth @ secondPasses @ finishBoth) initState))"
proof -
  from small_final obtain s where
    r: "run smallEncode sampleFs sampleCandidates
          (dispatchBoth @ secondPasses @ finishAccepted) initState = Some s"
    and f: "mainPc s = MDone" "collectedContent s = sampleText @ sampleTextA"
    by blast
  from sample_final obtain t where
    r': "run sampleEncode sampleFs sampleCandidates
          (dispatchBoth @ secondPasses @ finishBoth) initState = Some t"
    and f': "mainPc t = MDone" "collectedContent t = sampleText"
    by blast
  from content_is_concatenation [OF r] content_is_concatenation [OF r']
    r f r' f' small_accepted sample_accepted
  show ?thesis by blast
qed

text \<open>
  When the run has ended, the counter is the sum of the token counts of the accepted
  candidates.
\<close>

lemma counter_is_accepted_tokens:
  assumes fit: "tokensFit encode fs candidates"
    and rn: "run encode fs candidates sched initState = Some s"
    and dn: "mainPc s = MDone"
  shows "totalTokens s
     = sum_list (map (\<lambda>i. tokenCountOf (processed encode fs candidates i))
         (accepted encode fs candidates sched initState))"
proof -
  have mu: "mu s = None" using rn dn by (rule workers_joined(5))
  then have "awaitingWrite s = []" by (simp add: awaitingWrite_def)
  with reachable_accepts [OF rn]
  have "accepted encode fs candidates sched initState = merged s" by simp
  with counter_is_merged_tokens(2) [OF fit rn mu] show ?thesis
    by (simp add: mergedTokens_def)
qed

section \<open>The discovery walk: what is visited\<close>

text \<open>
  Pruning over the whole walk: every path on which the callback is called, and so every
  candidate, is reached from the root through directories none of which is ignored.
\<close>

lemma reachedVia_self: "reachedVia ign path path"
  unfolding reachedVia_def by (rule exI [of _ "[]"]) simp

lemma reachedVia_down:
  assumes "\<not> isIgnored (Rel path) ign" and "reachedVia ign (Join path name) f"
  shows "reachedVia ign path f"
proof -
  from assms(2) obtain names where
    n: "f = descend (Join path name) names"
      "list_all (\<lambda>q. \<not> isIgnored (Rel q) ign) (dirsAlong (Join path name) names)"
    by (auto simp: reachedVia_def)
  with assms(1) show ?thesis
    unfolding reachedVia_def by (intro exI [of _ "name # names"]) simp
qed

lemma walkFn_visited:
  "walkFn inc ign path isDir e st = (r, st') \<Longrightarrow> visited st' = visited st @ [path]"
  by (auto simp: walkFn_def Let_def split: option.splits if_splits)

lemma walkFn_SkipDir:
  "walkFn inc ign path isDir e st = (Continue, st') \<Longrightarrow> isDir \<Longrightarrow>
     \<not> isIgnored (Rel path) ign"
  by (auto simp: walkFn_def Let_def split: option.splits if_splits)

lemma walk_visited:
  shows "walkDir inc ign path d st = (r, st') \<Longrightarrow>
      \<exists>new. visited st' = visited st @ new \<and> list_all (reachedVia ign path) new"
    and "walkEntries inc ign path ds st = (r, st') \<Longrightarrow> \<not> isIgnored (Rel path) ign \<Longrightarrow>
      \<exists>new. visited st' = visited st @ new \<and> list_all (reachedVia ign path) new"
proof (induction inc ign path d st and inc ign path ds st arbitrary: r st' and r st'
    rule: walkDir_walkEntries.induct)
  case (1 inc ign path name st)
  then have "visited st' = visited st @ [path]" by (auto dest: walkFn_visited)
  then show ?case by (simp add: reachedVia_self)
next
  case (2 inc ign path name readErr entries st)
  obtain r1 st1 where f1: "walkFn inc ign path True None st = (r1, st1)"
    by (cases "walkFn inc ign path True None st")
  have v1: "visited st1 = visited st @ [path]"
    using f1 by (rule walkFn_visited)
  show ?case
  proof (cases r1)
    case Continue
    with f1 have keep: "\<not> isIgnored (Rel path) ign" by (auto dest: walkFn_SkipDir)
    show ?thesis
    proof (cases readErr)
      case None
      with "2.prems" f1 Continue have "walkEntries inc ign path entries st1 = (r, st')" by simp
      from "2.IH"(1) [OF f1 [symmetric] Continue None this keep]
      obtain new where "visited st' = visited st1 @ new" "list_all (reachedVia ign path) new"
        by blast
      with v1 have "visited st' = visited st @ (path # new) \<and>
          list_all (reachedVia ign path) (path # new)"
        by (simp add: reachedVia_self)
      then show ?thesis by blast
    next
      case (Some e)
      obtain r2 st2 where f2: "walkFn inc ign path True (Some e) st1 = (r2, st2)"
        by (cases "walkFn inc ign path True (Some e) st1")
      have r2: "r2 = Failed e"
        using f2 by (auto simp: walkFn_def)
      have v2: "visited st2 = visited st @ [path, path]"
        using walkFn_visited [OF f2] v1 by simp
      from "2.prems" f1 f2 Some Continue r2 have "st' = st2" by simp
      with v2 have "visited st' = visited st @ [path, path] \<and>
          list_all (reachedVia ign path) [path, path]"
        by (simp add: reachedVia_self)
      then show ?thesis by blast
    qed
  next
    case SkipDir
    with "2.prems" f1 have "st' = st1" by simp
    with v1 have "visited st' = visited st @ [path] \<and> list_all (reachedVia ign path) [path]"
      by (simp add: reachedVia_self)
    then show ?thesis by blast
  next
    case (Failed x)
    with "2.prems" f1 have "st' = st1" by simp
    with v1 have "visited st' = visited st @ [path] \<and> list_all (reachedVia ign path) [path]"
      by (simp add: reachedVia_self)
    then show ?thesis by blast
  qed
next
  case (3 inc ign path st)
  then show ?case by auto
next
  case (4 inc ign path d1 ds st)
  obtain r1 st1 where f1: "walkDir inc ign (Join path (entryName d1)) d1 st = (r1, st1)"
    by (cases "walkDir inc ign (Join path (entryName d1)) d1 st")
  from "4.IH"(1) [OF f1] obtain new1 where
    n1: "visited st1 = visited st @ new1"
      "list_all (reachedVia ign (Join path (entryName d1))) new1"
    by blast
  have n1': "list_all (reachedVia ign path) new1"
    using n1(2) "4.prems"(2) by (auto simp: list_all_iff intro: reachedVia_down)
  show ?case
  proof (cases r1)
    case Continue
    with "4.prems" f1 have "walkEntries inc ign path ds st1 = (r, st')" by simp
    from "4.IH"(2) [OF f1 [symmetric] Continue this "4.prems"(2)]
    obtain new2 where "visited st' = visited st1 @ new2" "list_all (reachedVia ign path) new2"
      by blast
    with n1 n1' have "visited st' = visited st @ (new1 @ new2) \<and>
        list_all (reachedVia ign path) (new1 @ new2)"
      by simp
    then show ?thesis by blast
  next
    case SkipDir
    with "4.prems" f1 n1 n1' show ?thesis by auto
  next
    case (Failed x)
    with "4.prems" f1 n1 n1' show ?thesis by auto
  qed
qed

lemma walkFn_files_visited:
  "walkFn inc ign path isDir e st = (r, st') \<Longrightarrow> set (files st) \<subseteq> set (visited st) \<Longrightarrow>
     set (files st') \<subseteq> set (visited st')"
  by (auto simp: walkFn_def Let_def split: option.splits if_splits)

lemma walk_files_visited:
  shows "walkDir inc ign path d st = (r, st') \<Longrightarrow> set (files st) \<subseteq> set (visited st) \<Longrightarrow>
      set (files st') \<subseteq> set (visited st')"
    and "walkEntries inc ign path ds st = (r, st') \<Longrightarrow> set (files st) \<subseteq> set (visited st) \<Longrightarrow>
      set (files st') \<subseteq> set (visited st')"
proof (induction inc ign path d st and inc ign path ds st arbitrary: r st' and r st'
    rule: walkDir_walkEntries.induct)
  case (1 inc ign path name st)
  then show ?case by (auto dest: walkFn_files_visited)
next
  case (2 inc ign path name readErr entries st)
  obtain r1 st1 where f1: "walkFn inc ign path True None st = (r1, st1)"
    by (cases "walkFn inc ign path True None st")
  have s1: "set (files st1) \<subseteq> set (visited st1)"
    using f1 "2.prems"(2) by (rule walkFn_files_visited)
  show ?case
  proof (cases r1)
    case Continue
    show ?thesis
    proof (cases readErr)
      case None
      with "2.prems" f1 Continue have "walkEntries inc ign path entries st1 = (r, st')" by simp
      from "2.IH"(1) [OF f1 [symmetric] Continue None this s1] show ?thesis .
    next
      case (Some e)
      obtain r2 st2 where f2: "walkFn inc ign path True (Some e) st1 = (r2, st2)"
        by (cases "walkFn inc ign path True (Some e) st1")
      have r2: "r2 = Failed e"
        using f2 by (auto simp: walkFn_def)
      have "set (files st2) \<subseteq> set (visited st2)"
        using f2 s1 by (rule walkFn_files_visited)
      moreover from "2.prems" f1 f2 Some Continue r2 have "st' = st2" by simp
      ultimately show ?thesis by simp
    qed
  next
    case SkipDir
    with "2.prems" f1 s1 show ?thesis by auto
  next
    case (Failed x)
    with "2.prems" f1 s1 show ?thesis by auto
  qed
next
  case (3 inc ign path st)
  then show ?case by auto
next
  case (4 inc ign path d1 ds st)
  obtain r1 st1 where f1: "walkDir inc ign (Join path (entryName d1)) d1 st = (r1, st1)"
    by (cases "walkDir inc ign (Join path (entryName d1)) d1 st")
  have s1: "set (files st1) \<subseteq> set (visited st1)"
    using "4.IH"(1) [OF f1 "4.prems"(2)] .
  show ?case
  proof (cases r1)
    case Continue
    with "4.prems" f1 have "walkEntries inc ign path ds st1 = (r, st')" by simp
    from "4.IH"(2) [OF f1 [symmetric] Continue this s1] show ?thesis .
  next
    case SkipDir
    with "4.prems" f1 s1 show ?thesis by auto
  next
    case (Failed x)
    with "4.prems" f1 s1 show ?thesis by auto
  qed
qed

lemma discovered_below_kept_directories:
  assumes "discover inc ign root = (e, st)"
  shows "list_all (reachedVia ign rootDir) (visited st)"
    and "set (files st) \<subseteq> set (visited st)"
proof -
  let ?S0 = "\<lparr>files = [], visited = []\<rparr>"
  show "list_all (reachedVia ign rootDir) (visited st)"
  proof (cases root)
    case (Inl er)
    with assms have "visited st = [rootDir]"
      by (auto simp: discover_def WalkDir_def walkFn_def)
    then show ?thesis by (simp add: reachedVia_self)
  next
    case (Inr d)
    obtain r st1 where w: "walkDir inc ign rootDir d ?S0 = (r, st1)"
      by (cases "walkDir inc ign rootDir d ?S0")
    with assms Inr have "st = st1"
      by (cases r) (auto simp: discover_def WalkDir_def)
    with walk_visited(1) [OF w] show ?thesis by auto
  qed
  show "set (files st) \<subseteq> set (visited st)"
  proof (cases root)
    case (Inl er)
    with assms have "files st = []"
      by (auto simp: discover_def WalkDir_def walkFn_def)
    then show ?thesis by simp
  next
    case (Inr d)
    obtain r st1 where w: "walkDir inc ign rootDir d ?S0 = (r, st1)"
      by (cases "walkDir inc ign rootDir d ?S0")
    with assms Inr have "st = st1"
      by (cases r) (auto simp: discover_def WalkDir_def)
    with walk_files_visited(1) [OF w] show ?thesis by auto
  qed
qed

end
